theory Spec2Isabelle
  imports Complex_Main "HOL-Library.Log_Nat" "HOL-Library.Char_ord" "HOL-Library.List_Lexorder"
begin

section \<open>Python floats\<close>

text \<open>
  A finite IEEE binary64 number is modelled by a mantissa and an exponent, \<open>Float m e\<close>
  standing for \<open>m * 2 ^ e\<close>. Results of operations are rounded to nearest, ties to even.
\<close>

datatype pyfloat = Float int int

section \<open>Errors\<close>

text \<open>
  Every exception the module raises itself is a Python \<^verbatim>\<open>ValueError\<close>; the constructors
  below name the raise site and carry the values formatted into the message.
  \<open>NumpyError\<close> stands for any exception raised inside a NumPy primitive
  (\<^verbatim>\<open>np.convolve\<close>, \<^verbatim>\<open>np.vectorize\<close>, \<^verbatim>\<open>np.stack\<close>, \<^verbatim>\<open>np.apply_along_axis\<close>,
  \<^verbatim>\<open>np.ones\<close>, \<^verbatim>\<open>np.transpose\<close>, iteration over an array); its exception class is
  not modelled.
\<close>

datatype error =
    ValueError_window pyfloat real  \<comment> \<open>\<^verbatim>\<open>moving_average\<close>: time window, epoch length\<close>
  | ValueError_ndim               \<comment> \<open>\<^verbatim>\<open>convolve\<close>: more than 3 dimensions under numpy < 1.12.0\<close>
  | ValueError_npairs int         \<comment> \<open>\<^verbatim>\<open>_npairs\<close>: the number of items passed\<close>
  | NumpyError
  | IndexError                    \<comment> \<open>\<^verbatim>\<open>epoch.times[-1]\<close> on an empty sequence\<close>
  | OverflowError                 \<comment> \<open>int too large to convert to float; float infinity to int\<close>
  | AttributeError                \<comment> \<open>the argument of \<^verbatim>\<open>moving_average\<close> is not an \<^verbatim>\<open>Epochs\<close> object\<close>

section \<open>Python floats in \<^verbatim>\<open>_npairs\<close>\<close>

text \<open>
  \<^verbatim>\<open>_npairs\<close> takes a Python int and returns a Python int, but computes through
  IEEE binary64: \<^verbatim>\<open>n_items * (n_items - 1) / 2. + n_items\<close>.
  Results are rounded to 53 significant bits, to nearest, ties to even. Subnormal
  numbers do not arise (every value here is 0 or at least 1 in magnitude).
\<close>

text \<open>\<open>rne x k\<close>: the non-negative integer \<open>x\<close> divided by \<open>2 ^ k\<close>, rounded to the nearest
  integer, ties to even.\<close>

definition rne :: "int \<Rightarrow> nat \<Rightarrow> int" where
  "rne x k =
     (let q = x div 2 ^ k; r = x mod 2 ^ k in
      if 2 * r < 2 ^ k then q
      else if 2 * r > 2 ^ k then q + 1
      else if even q then q else q + 1)"

fun round53 :: "pyfloat \<Rightarrow> pyfloat" where
  "round53 (Float m e) =
     (let k = bitlen \<bar>m\<bar> - 53 in
      if k \<le> 0 then Float m e
      else Float (sgn m * rne \<bar>m\<bar> (nat k)) (e + k))"

text \<open>Conversion of an int to a float (\<^verbatim>\<open>PyLong_AsDouble\<close>): correctly rounded;
  \<^verbatim>\<open>OverflowError\<close> when the rounded value reaches \<open>2 ^ 1024\<close>.\<close>

fun float_overflows :: "pyfloat \<Rightarrow> bool" where
  "float_overflows (Float m e) = (bitlen \<bar>m\<bar> + e > 1024)"

definition float_of_int :: "int \<Rightarrow> error + pyfloat" where
  "float_of_int x =
     (let f = round53 (Float x 0) in
      if float_overflows f then Inl OverflowError else Inr f)"

text \<open>Division by the float \<^verbatim>\<open>2.\<close>, a power of two: exact.\<close>

fun float_half :: "pyfloat \<Rightarrow> pyfloat" where
  "float_half (Float m e) = Float m (e - 1)"

text \<open>Addition: the exact sum, rounded. (In \<^verbatim>\<open>_npairs\<close> the operands are below
  \<open>2 ^ 1023\<close> and \<open>2 ^ 513\<close>, so the sum does not overflow to infinity.)\<close>

fun float_add :: "pyfloat \<Rightarrow> pyfloat \<Rightarrow> pyfloat" where
  "float_add (Float m1 e1) (Float m2 e2) =
     (let e = min e1 e2 in
      round53 (Float (m1 * 2 ^ nat (e1 - e) + m2 * 2 ^ nat (e2 - e)) e))"

text \<open>\<^verbatim>\<open>int(x)\<close> truncates towards zero.\<close>

fun int_of_float :: "pyfloat \<Rightarrow> int" where
  "int_of_float (Float m e) =
     (if 0 \<le> e then m * 2 ^ nat e else sgn m * (\<bar>m\<bar> div 2 ^ nat (- e)))"

section \<open>\<^verbatim>\<open>_npairs\<close>\<close>

definition npairs :: "int \<Rightarrow> error + int" where
  "npairs n_items =
     (if n_items < 2 then Inl (ValueError_npairs n_items)
      else case float_of_int (n_items * (n_items - 1)) of
             Inl err \<Rightarrow> Inl err
           | Inr prod_f \<Rightarrow>
               (case float_of_int n_items of
                  Inl err \<Rightarrow> Inl err
                | Inr n_f \<Rightarrow> Inr (int_of_float (float_add (float_half prod_f) n_f))))"

section \<open>\<^verbatim>\<open>_get_unique_targets\<close>\<close>

text \<open>
  \<^verbatim>\<open>np.unique\<close> first converts its argument to an array, which can change the labels
  (a list of Python ints that mixes the ranges of int64 and uint64 becomes an array of
  float64, a nested sequence an array of more than one dimension), and returns the
  sorted distinct elements of the flattened array. The conversion is a parameter of the
  model, \<open>asarray\<close>, which gives the elements of the flattened array; they are values of
  a linearly ordered type (so there is no NaN among them). \<^verbatim>\<open>set(...)\<close> forgets the
  order, \<^verbatim>\<open>intersection\<close> keeps the elements that also occur in the other array, and
  \<^verbatim>\<open>sorted\<close> lists a set in ascending order.
\<close>

definition np_unique :: "('a list \<Rightarrow> 'b::linorder list) \<Rightarrow> 'a list \<Rightarrow> 'b list" where
  "np_unique asarray xs = sorted_list_of_set (set (asarray xs))"

definition get_unique_targets :: "('a list \<Rightarrow> 'b::linorder list) \<Rightarrow> 'a list \<Rightarrow> 'a list \<Rightarrow> 'b list" where
  "get_unique_targets asarray targets_train targets_test =
     (let unique_targets_train = np_unique asarray targets_train;
          unique_targets_test = np_unique asarray targets_test;
          unique_targets = sorted_list_of_set (set unique_targets_train \<inter> set unique_targets_test)
      in unique_targets)"

text \<open>
  The conversion of a list of Python ints: every element within the range of int64 gives
  an int64 array and every element within the upper half of uint64 a uint64 array, both
  with the same values; a mix of the two ranges is promoted to float64, each int
  rounded to the nearest float64; an element outside both ranges gives an array of
  Python objects, the ints themselves. An element of the array is represented by its
  value, an integer in all four cases.
\<close>

definition float64_of_pyint :: "int \<Rightarrow> int" where
  "float64_of_pyint x = int_of_float (round53 (Float x 0))"

definition np_array_ints :: "int list \<Rightarrow> int list" where
  "np_array_ints xs =
     (if list_all (\<lambda>x. - (2 ^ 63) \<le> x \<and> x < 2 ^ 63) xs then xs
      else if list_all (\<lambda>x. 2 ^ 63 \<le> x \<and> x < 2 ^ 64) xs then xs
      else if list_all (\<lambda>x. - (2 ^ 63) \<le> x \<and> x < 2 ^ 64) xs then map float64_of_pyint xs
      else xs)"

section \<open>Python floats in \<^verbatim>\<open>moving_average\<close>\<close>

text \<open>
  \<^verbatim>\<open>nsamples = np.ceil(float(twindow) * epoch.info['sfreq'])\<close> multiplies two floats:
  the exact product is rounded to binary64, to 53 significant bits or, below the normal
  range, to a multiple of \<open>2 ^ - 1074\<close>; a rounded magnitude of \<open>2 ^ 1024\<close> or more is an
  infinity. The product of two finite numbers is never a NaN.
\<close>

datatype float64 = Finite pyfloat | PosInf | NegInf

fun round64 :: "pyfloat \<Rightarrow> float64" where
  "round64 (Float m e) =
     (let k = max (bitlen \<bar>m\<bar> - 53) (- 1074 - e);
          f = (if k \<le> 0 then Float m e else Float (sgn m * rne \<bar>m\<bar> (nat k)) (e + k))
      in if float_overflows f then (if 0 < m then PosInf else NegInf) else Finite f)"

fun float_mul :: "pyfloat \<Rightarrow> pyfloat \<Rightarrow> float64" where
  "float_mul (Float m1 e1) (Float m2 e2) = round64 (Float (m1 * m2) (e1 + e2))"

text \<open>\<^verbatim>\<open>np.ceil\<close>: the least integer not below the argument, as a float (exact); an infinity
  stays what it is.\<close>

fun np_ceil :: "float64 \<Rightarrow> float64" where
  "np_ceil (Finite (Float m e)) =
     Finite (Float (if 0 \<le> e then m * 2 ^ nat e else - ((- m) div 2 ^ nat (- e))) 0)"
| "np_ceil PosInf = PosInf"
| "np_ceil NegInf = NegInf"

text \<open>\<^verbatim>\<open>x > n\<close> for a float \<open>x\<close> and the int \<open>n = len(epoch.times)\<close> (a length converts to a
  float exactly).\<close>

fun float64_gt_int :: "float64 \<Rightarrow> int \<Rightarrow> bool" where
  "float64_gt_int (Finite (Float m e)) n =
     (if 0 \<le> e then n < m * 2 ^ nat e else n * 2 ^ nat (- e) < m)"
| "float64_gt_int PosInf n = True"
| "float64_gt_int NegInf n = False"

text \<open>\<^verbatim>\<open>int(x)\<close> raises \<^verbatim>\<open>OverflowError\<close> on an infinity.\<close>

fun int_of_float64 :: "float64 \<Rightarrow> error + int" where
  "int_of_float64 (Finite f) = Inr (int_of_float f)"
| "int_of_float64 PosInf = Inl OverflowError"
| "int_of_float64 NegInf = Inl OverflowError"

text \<open>
  \<^verbatim>\<open>1. / x\<close> for a positive float \<open>x = m * 2 ^ e\<close> whose reciprocal is a normal binary64
  number (between \<open>2 ^ - 1022\<close> and \<open>2 ^ 1023\<close>): with \<open>p = bitlen m + 52\<close> the quotient
  \<open>2 ^ p / m\<close> lies between \<open>2 ^ 52\<close> and \<open>2 ^ 53\<close> and is rounded to the nearest integer,
  ties to even. This is how a caller computes the duration of one sample, \<^verbatim>\<open>1 / sfreq\<close>.
\<close>

definition rne_div :: "int \<Rightarrow> int \<Rightarrow> int" where
  "rne_div a b =
     (let q = a div b; r = a mod b in
      if 2 * r < b then q
      else if 2 * r > b then q + 1
      else if even q then q else q + 1)"

fun float_recip :: "pyfloat \<Rightarrow> pyfloat" where
  "float_recip (Float m e) =
     (let p = nat (bitlen m) + 52 in Float (rne_div (2 ^ p) m) (- e - int p))"

text \<open>The floats on which \<open>float_recip\<close> is \<^verbatim>\<open>1. / x\<close>: the positive binary64 numbers whose
  reciprocal is a normal binary64 number.\<close>

fun recip_normal :: "pyfloat \<Rightarrow> bool" where
  "recip_normal (Float m e) =
     (0 < m \<and> m < 2 ^ 53 \<and> - 1074 \<le> e
      \<and> - 1074 \<le> - e - (bitlen m + 52) \<and> - e - (bitlen m + 52) \<le> 970)"

section \<open>Arrays\<close>

text \<open>
  A NumPy array is its shape and its elements in C (row-major) order. The floating-point
  elements of arrays are modelled as real numbers: the rounding of the element
  arithmetic is not modelled.
\<close>

record ndarray =
  shape :: "nat list"
  buf :: "real list"

definition wf_array :: "ndarray \<Rightarrow> bool" where
  "wf_array a = (length (buf a) = prod_list (shape a))"

definition ndim :: "ndarray \<Rightarrow> nat" where
  "ndim a = length (shape a)"

text \<open>The 1-D slices along the last axis, numbered in C order of the leading indices.\<close>

definition nrows :: "ndarray \<Rightarrow> nat" where
  "nrows a = prod_list (butlast (shape a))"

definition row :: "ndarray \<Rightarrow> nat \<Rightarrow> real list" where
  "row a i = take (last (shape a)) (drop (i * last (shape a)) (buf a))"

text \<open>\<^verbatim>\<open>a[i, j, :]\<close> of a 3-D array (for an epoch array: the time series of epoch \<open>i\<close> and
  channel \<open>j\<close>).\<close>

definition slice3 :: "ndarray \<Rightarrow> nat \<Rightarrow> nat \<Rightarrow> real list" where
  "slice3 a i j = row a (i * (shape a ! 1) + j)"

section \<open>NumPy primitives\<close>

text \<open>The full discrete convolution, of length \<open>len(a) + len(v) - 1\<close>:
  element \<open>k\<close> is the sum of \<open>a[j] * v[k - j]\<close>.\<close>

definition full_convolution :: "real list \<Rightarrow> real list \<Rightarrow> real list" where
  "full_convolution a v =
     map (\<lambda>k. \<Sum>j\<leftarrow>[0..<length a]. if j \<le> k \<and> k - j < length v then a ! j * v ! (k - j) else 0)
       [0..<length a + length v - 1]"

text \<open>\<^verbatim>\<open>np.convolve(a, v)\<close> (mode \<^verbatim>\<open>'full'\<close>) puts the longer argument first and raises
  \<^verbatim>\<open>ValueError\<close> when either argument is empty.\<close>

definition np_convolve :: "real list \<Rightarrow> real list \<Rightarrow> error + real list" where
  "np_convolve a v =
     (let (a', v') = (if length v > length a then (v, a) else (a, v)) in
      if a' = [] then Inl NumpyError
      else if v' = [] then Inl NumpyError
      else Inr (full_convolution a' v'))"

text \<open>\<^verbatim>\<open>np.ones(n)\<close> raises on a negative length.\<close>

definition np_ones :: "int \<Rightarrow> error + real list" where
  "np_ones n = (if n < 0 then Inl NumpyError else Inr (replicate (nat n) 1))"

text \<open>A Python loop that appends one result per element and stops at the first exception.\<close>

fun map_err :: "('a \<Rightarrow> error + 'b) \<Rightarrow> 'a list \<Rightarrow> error + 'b list" where
  "map_err f [] = Inr []"
| "map_err f (x # xs) =
     (case f x of
        Inl e \<Rightarrow> Inl e
      | Inr y \<Rightarrow> (case map_err f xs of Inl e \<Rightarrow> Inl e | Inr ys \<Rightarrow> Inr (y # ys)))"

text \<open>\<^verbatim>\<open>np.transpose(data, [1, 0, 2])\<close>: element \<open>(j, i, k)\<close> of the result is element
  \<open>(i, j, k)\<close> of the argument; the axes must match the three dimensions of the array.\<close>

definition transpose_102 :: "ndarray \<Rightarrow> error + ndarray" where
  "transpose_102 a =
     (case shape a of
        [n0, n1, n2] \<Rightarrow>
          Inr \<lparr>shape = [n1, n0, n2],
               buf = concat (map (\<lambda>r. row a ((r mod n0) * n1 + r div n0)) [0..<n1 * n0])\<rparr>
      | _ \<Rightarrow> Inl NumpyError)"

text \<open>Iterating over an array yields its sub-arrays along the first axis; a 0-d array
  is not iterable.\<close>

definition subarrays :: "ndarray \<Rightarrow> error + ndarray list" where
  "subarrays a =
     (case shape a of
        [] \<Rightarrow> Inl NumpyError
      | d # ds \<Rightarrow>
          Inr (map (\<lambda>i. \<lparr>shape = ds, buf = take (prod_list ds) (drop (i * prod_list ds) (buf a))\<rparr>)
                 [0..<d]))"

text \<open>\<^verbatim>\<open>np.stack(arrays)\<close>: needs at least one array, and all of the same shape.\<close>

definition np_stack :: "ndarray list \<Rightarrow> error + ndarray" where
  "np_stack arrays =
     (case arrays of
        [] \<Rightarrow> Inl NumpyError
      | a # as \<Rightarrow>
          if list_all (\<lambda>b. shape b = shape a) as
          then Inr \<lparr>shape = length arrays # shape a, buf = concat (map buf arrays)\<rparr>
          else Inl NumpyError)"

text \<open>\<^verbatim>\<open>np.apply_along_axis(func1d, 1, arr)\<close> on a 2-D array under numpy < 1.12.0: the
  function is applied to every row; the first row is read before anything else, so an
  array without rows raises. \<^verbatim>\<open>convolve\<close> calls it on sub-arrays of an array of at most
  3 dimensions, that is on arrays of at most 2 dimensions; axis 1 does not exist below
  2 dimensions. Arrays of more dimensions are not modelled here (they give
  \<open>NumpyError\<close>).\<close>

definition apply_along_axis_1 :: "(real list \<Rightarrow> error + real list) \<Rightarrow> ndarray \<Rightarrow> error + ndarray" where
  "apply_along_axis_1 func1d arr =
     (case shape arr of
        [n0, n1] \<Rightarrow>
          (case map_err (\<lambda>i. func1d (row arr i)) [0..<n0] of
             Inl e \<Rightarrow> Inl e
           | Inr [] \<Rightarrow> Inl NumpyError
           | Inr (res # ress) \<Rightarrow> Inr \<lparr>shape = [n0, length res], buf = concat (res # ress)\<rparr>)
      | _ \<Rightarrow> Inl NumpyError)"

section \<open>\<^verbatim>\<open>_conv\<close> and \<^verbatim>\<open>convolve\<close>\<close>

definition conv :: "real list \<Rightarrow> real list \<Rightarrow> error + real list" where
  "conv array filt =
     (case np_convolve array filt of
        Inl e \<Rightarrow> Inl e
      | Inr res \<Rightarrow> Inr (take (length array) res))"

text \<open>The value \<^verbatim>\<open>_conv\<close> returns when \<^verbatim>\<open>np.convolve\<close> does not raise (used to state
  and prove properties).\<close>

definition conv_out :: "real list \<Rightarrow> real list \<Rightarrow> real list" where
  "conv_out array filt =
     take (length array)
       (if length filt > length array then full_convolution filt array
        else full_convolution array filt)"

text \<open>\<^verbatim>\<open>_conv\<close> applied to a 1-D array object.\<close>

definition conv_1d :: "ndarray \<Rightarrow> real list \<Rightarrow> error + ndarray" where
  "conv_1d array filt =
     (case conv (buf array) filt of
        Inl e \<Rightarrow> Inl e
      | Inr res \<Rightarrow> Inr \<lparr>shape = [length res], buf = res\<rparr>)"

text \<open>
  \<^verbatim>\<open>np.vectorize(lambda x, y: np.convolve(x, y)[..., :len(x)], signature='(n),(m)->(k)')\<close>
  applied to the array and the 1-D filter: the array needs its core dimension; the
  function is called once for every index of the leading dimensions
  (\<^verbatim>\<open>np.ndindex\<close>, in C order) on the slice along the last axis; the output has the
  leading dimensions followed by the length of the first result; if the function was
  never called (an input of size 0) \<^verbatim>\<open>np.vectorize\<close> raises.
\<close>

definition convvect :: "ndarray \<Rightarrow> real list \<Rightarrow> error + ndarray" where
  "convvect array filt =
     (if shape array = [] then Inl NumpyError
      else case map_err (\<lambda>i. conv (row array i) filt) [0..<nrows array] of
             Inl e \<Rightarrow> Inl e
           | Inr [] \<Rightarrow> Inl NumpyError
           | Inr (res # ress) \<Rightarrow>
               Inr \<lparr>shape = butlast (shape array) @ [length res], buf = concat (res # ress)\<rparr>)"

text \<open>
  \<^verbatim>\<open>convolve\<close> compares \<^verbatim>\<open>np.__version__\<close> with \<^verbatim>\<open>'1.12.0'\<close> as strings, that is
  lexicographically; the version string is a parameter of the model. Each branch is
  modelled on a NumPy that provides the primitives the branch calls.
\<close>

definition convolve :: "string \<Rightarrow> ndarray \<Rightarrow> real list \<Rightarrow> error + ndarray" where
  "convolve np_version array filt =
     (if np_version \<ge> ''1.12.0'' then convvect array filt
      else if ndim array > 3 then Inl ValueError_ndim
      else if ndim array = 1 then conv_1d array filt
      else case subarrays array of
             Inl e \<Rightarrow> Inl e
           | Inr array0s \<Rightarrow>
               (case map_err (\<lambda>array0. if ndim array0 = 1 then conv_1d array0 filt
                                        else apply_along_axis_1 (\<lambda>x. conv x filt) array0) array0s of
                  Inl e \<Rightarrow> Inl e
                | Inr array_convolve \<Rightarrow> np_stack array_convolve))"

section \<open>\<^verbatim>\<open>moving_average\<close>\<close>

text \<open>
  An \<^verbatim>\<open>mne.Epochs\<close> object: \<open>data\<close> is \<^verbatim>\<open>epoch._data\<close> (epochs, channels, times),
  \<open>sfreq\<close> is \<^verbatim>\<open>epoch.info['sfreq']\<close>, \<open>times\<close> is \<^verbatim>\<open>epoch.times\<close>; every other
  attribute is in the extension of the record.
\<close>

record epochs =
  data :: ndarray
  sfreq :: pyfloat
  times :: "real list"

text \<open>\<^verbatim>\<open>filt = np.ones(int(nsamples))/nsamples\<close>, given \<^verbatim>\<open>int(nsamples)\<close>: every element of
  \<^verbatim>\<open>np.ones\<close> divided by \<^verbatim>\<open>nsamples\<close>, whose value is \<^verbatim>\<open>int(nsamples)\<close> since \<^verbatim>\<open>np.ceil\<close>
  returned it.\<close>

definition boxcar_filter :: "int \<Rightarrow> error + real list" where
  "boxcar_filter nsamples =
     (case np_ones nsamples of
        Inl e \<Rightarrow> Inl e
      | Inr ones \<Rightarrow> Inr (map (\<lambda>w. w / real_of_int nsamples) ones))"

text \<open>
  \<^verbatim>\<open>moving_average\<close> on values: \<^verbatim>\<open>epoch.copy()\<close> is the same value, \<open>twindow\<close> is the
  float that \<^verbatim>\<open>float(twindow)\<close> returns, and the \<^verbatim>\<open>ValueError\<close> formats
  \<^verbatim>\<open>epoch.times[-1] - epoch.times[0]\<close> into its message, which raises \<^verbatim>\<open>IndexError\<close> when
  there are no time points.
\<close>

definition moving_average :: "string \<Rightarrow> 'a epochs_scheme \<Rightarrow> pyfloat \<Rightarrow> error + 'a epochs_scheme" where
  "moving_average np_version epoch twindow =
     (let epoch' = epoch;
          nsamples = np_ceil (float_mul twindow (sfreq epoch))
      in if float64_gt_int nsamples (int (length (times epoch))) then
           (if times epoch = [] then Inl IndexError
            else Inl (ValueError_window twindow (last (times epoch) - hd (times epoch))))
         else case int_of_float64 nsamples of
                Inl e \<Rightarrow> Inl e
              | Inr n \<Rightarrow>
                  (case boxcar_filter n of
                     Inl e \<Rightarrow> Inl e
                   | Inr filt \<Rightarrow>
                       (case transpose_102 (data epoch') of
                          Inl e \<Rightarrow> Inl e
                        | Inr data1 \<Rightarrow>
                            (case convolve np_version data1 filt of
                               Inl e \<Rightarrow> Inl e
                             | Inr data2 \<Rightarrow>
                                 (case transpose_102 data2 of
                                    Inl e \<Rightarrow> Inl e
                                  | Inr data3 \<Rightarrow> Inr (epoch'\<lparr>data := data3\<rparr>))))))"

section \<open>\<^verbatim>\<open>moving_average\<close> on a store of objects\<close>

text \<open>
  Whether the input is mutated depends on which objects the code writes to. Objects live
  in a store, a list indexed by address; allocation appends. An \<^verbatim>\<open>Epochs\<close> object holds
  the address of its data array, its sampling frequency and its time points.
  \<^verbatim>\<open>epoch.copy()\<close> is a deep copy: a new array and a new \<^verbatim>\<open>Epochs\<close> object that refers to
  it. \<^verbatim>\<open>np.transpose\<close> returns a view and \<^verbatim>\<open>convolve\<close> a new array; nothing is written
  through them, so they are values here, and the array assigned in
  \<^verbatim>\<open>epoch_._data = data\<close> is allocated when it is assigned.
\<close>

type_synonym addr = nat

datatype obj = Array ndarray | Epochs addr pyfloat "real list"

type_synonym store = "obj list"

definition lookup :: "store \<Rightarrow> addr \<Rightarrow> obj option" where
  "lookup h a = (if a < length h then Some (h ! a) else None)"

definition alloc :: "store \<Rightarrow> obj \<Rightarrow> addr \<times> store" where
  "alloc h ob = (length h, h @ [ob])"

text \<open>The value of the \<^verbatim>\<open>Epochs\<close> object at an address.\<close>

definition deref :: "store \<Rightarrow> addr \<Rightarrow> epochs option" where
  "deref h a =
     (case lookup h a of
        Some (Epochs d sf ts) \<Rightarrow>
          (case lookup h d of
             Some (Array arr) \<Rightarrow> Some \<lparr>data = arr, sfreq = sf, times = ts\<rparr>
           | _ \<Rightarrow> None)
      | _ \<Rightarrow> None)"

definition moving_average_st :: "string \<Rightarrow> store \<Rightarrow> addr \<Rightarrow> pyfloat \<Rightarrow> (error + addr) \<times> store" where
  "moving_average_st np_version h epoch twindow =
     (case lookup h epoch of
        Some (Epochs d sf ts) \<Rightarrow>
          (case lookup h d of
             Some (Array arr) \<Rightarrow>
               (let (d', h1) = alloc h (Array arr);
                    (epoch', h2) = alloc h1 (Epochs d' sf ts);
                    nsamples = np_ceil (float_mul twindow sf)
                in if float64_gt_int nsamples (int (length ts)) then
                     (if ts = [] then (Inl IndexError, h2)
                      else (Inl (ValueError_window twindow (last ts - hd ts)), h2))
                   else case int_of_float64 nsamples of
                          Inl e \<Rightarrow> (Inl e, h2)
                        | Inr n \<Rightarrow>
                            (case boxcar_filter n of
                               Inl e \<Rightarrow> (Inl e, h2)
                             | Inr filt \<Rightarrow>
                                 (case transpose_102 arr of
                                    Inl e \<Rightarrow> (Inl e, h2)
                                  | Inr data1 \<Rightarrow>
                                      (case convolve np_version data1 filt of
                                         Inl e \<Rightarrow> (Inl e, h2)
                                       | Inr data2 \<Rightarrow>
                                           (case transpose_102 data2 of
                                              Inl e \<Rightarrow> (Inl e, h2)
                                            | Inr data3 \<Rightarrow>
                                                (let (d3, h3) = alloc h2 (Array data3)
                                                 in (Inr epoch', h3[epoch' := Epochs d3 sf ts])))))))
           | _ \<Rightarrow> (Inl AttributeError, h))
      | _ \<Rightarrow> (Inl AttributeError, h))"

section \<open>Lists, rows and the NumPy primitives\<close>

lemma length_full_convolution [simp]:
  "length (full_convolution a v) = length a + length v - 1"
  by (simp add: full_convolution_def)

lemma np_convolve_eq:
  "np_convolve a v =
     (if a = [] \<or> v = [] then Inl NumpyError
      else Inr (if length v > length a then full_convolution v a else full_convolution a v))"
  by (auto simp: np_convolve_def)

lemma conv_eq:
  "conv x f = (if x = [] \<or> f = [] then Inl NumpyError else Inr (conv_out x f))"
  by (simp add: conv_def np_convolve_eq conv_out_def)

lemma length_conv_out [simp]: "f \<noteq> [] \<Longrightarrow> length (conv_out x f) = length x"
  by (cases f) (auto simp: conv_out_def)

lemma map_err_Inr: "(\<And>x. x \<in> set xs \<Longrightarrow> f x = Inr (g x)) \<Longrightarrow> map_err f xs = Inr (map g xs)"
  by (induction xs) auto

lemma map_err_Inl: "xs \<noteq> [] \<Longrightarrow> (\<And>x. x \<in> set xs \<Longrightarrow> f x = Inl e) \<Longrightarrow> map_err f xs = Inl e"
  by (cases xs) auto

lemma map_err_map: "map_err f (map h xs) = map_err (\<lambda>x. f (h x)) xs"
  by (induction xs) (simp_all split: sum.splits)

lemma prod_list_butlast_last: "s \<noteq> [] \<Longrightarrow> prod_list (butlast s) * last s = prod_list s"
  by (induction s) (auto simp: mult.assoc)

lemma length_buf: "wf_array a \<Longrightarrow> shape a \<noteq> [] \<Longrightarrow> length (buf a) = nrows a * last (shape a)"
  by (simp add: wf_array_def nrows_def prod_list_butlast_last)

lemma length_row:
  assumes "wf_array a" "shape a \<noteq> []" "i < nrows a"
  shows "length (row a i) = last (shape a)"
proof -
  let ?n = "last (shape a)"
  from assms(3) have "Suc i \<le> nrows a" by simp
  then have "Suc i * ?n \<le> nrows a * ?n" by (rule mult_le_mono1)
  then have "?n \<le> nrows a * ?n - i * ?n" by simp
  with length_buf [OF assms(1,2)] show ?thesis by (simp add: row_def)
qed

lemma length_concat_chunks:
  "(\<And>j. j < k \<Longrightarrow> length (g j) = n) \<Longrightarrow> length (concat (map g [0..<k])) = k * n"
  by (induction k) auto

lemma concat_chunk:
  assumes "\<And>j. j < k \<Longrightarrow> length (g j) = n" "i < k"
  shows "take n (drop (i * n) (concat (map g [0..<k]))) = g i"
  using assms
proof (induction k)
  case 0
  then show ?case by simp
next
  case (Suc k)
  have len: "length (concat (map g [0..<k])) = k * n"
    using Suc.prems(1) by (intro length_concat_chunks) simp
  show ?case
  proof (cases "i < k")
    case True
    then have "Suc i * n \<le> k * n" by (intro mult_le_mono1) simp
    then have le: "i * n + n \<le> k * n" by simp
    have "take n (drop (i * n) (concat (map g [0..<k]))) = g i"
      using Suc.IH [OF _ True] Suc.prems(1) by simp
    moreover have "length (drop (i * n) (concat (map g [0..<k]))) \<ge> n"
      using le len by simp
    ultimately show ?thesis using le len by simp
  next
    case False
    with Suc.prems have "i = k" by simp
    with len Suc.prems show ?thesis by simp
  qed
qed

lemma concat_chunks_id:
  "length xs = k * n \<Longrightarrow> concat (map (\<lambda>i. take n (drop (i * n) xs)) [0..<k]) = xs"
proof (induction k arbitrary: xs)
  case 0
  then show ?case by simp
next
  case (Suc k)
  have eq: "take n (drop (i * n) (take (k * n) xs)) = take n (drop (i * n) xs)" if "i < k" for i
  proof -
    from that have "Suc i * n \<le> k * n" by (intro mult_le_mono1) simp
    then have "n \<le> k * n - i * n" by simp
    then show ?thesis by (simp add: drop_take min_def)
  qed
  have "concat (map (\<lambda>i. take n (drop (i * n) xs)) [0..<k])
        = concat (map (\<lambda>i. take n (drop (i * n) (take (k * n) xs))) [0..<k])"
    by (intro arg_cong [where f = concat] map_cong refl) (simp add: eq)
  also have "\<dots> = take (k * n) xs" using Suc.prems by (intro Suc.IH) simp
  finally have "concat (map (\<lambda>i. take n (drop (i * n) xs)) [0..<k]) = take (k * n) xs" .
  moreover have "take n (drop (k * n) xs) = drop (k * n) xs" using Suc.prems by simp
  ultimately show ?case by simp
qed

lemma concat_split:
  "concat (map g [0..<p * r]) = concat (map (\<lambda>q. concat (map (\<lambda>i. g (q * r + i)) [0..<r])) [0..<p])"
proof (induction p)
  case 0
  then show ?case by simp
next
  case (Suc p)
  have "[0..<p * r + r] = [0..<p * r] @ [p * r..<p * r + r]"
    by (rule upt_add_eq_append) simp
  moreover have "[p * r..<p * r + r] = map (\<lambda>i. p * r + i) [0..<r]"
    using map_add_upt [of "p * r" r] by (simp add: add.commute)
  moreover have "Suc p * r = p * r + r" by simp
  ultimately have "[0..<Suc p * r] = [0..<p * r] @ map (\<lambda>i. p * r + i) [0..<r]"
    by (simp only:)
  then have "concat (map g [0..<Suc p * r])
      = concat (map g [0..<p * r]) @ concat (map (\<lambda>i. g (p * r + i)) [0..<r])"
    by (simp only: map_append concat_append map_map comp_def)
  then show ?case using Suc by simp
qed

section \<open>The two branches of \<^verbatim>\<open>convolve\<close>\<close>

lemma nrows_pos:
  assumes "0 \<notin> set (shape a)"
  shows "0 < nrows a"
proof -
  from assms have "0 \<notin> set (butlast (shape a))" by (auto dest: in_set_butlastD)
  then have "prod_list (butlast (shape a)) \<noteq> 0" by (simp add: prod_list_zero_iff)
  then show ?thesis by (simp add: nrows_def)
qed

lemma conv_rows:
  assumes "wf_array a" "shape a \<noteq> []"
  shows "map_err (\<lambda>i. conv (row a i) filt) [0..<nrows a] =
          (if nrows a = 0 then Inr []
           else if last (shape a) = 0 \<or> filt = [] then Inl NumpyError
           else Inr (map (\<lambda>i. conv_out (row a i) filt) [0..<nrows a]))"
proof (cases "nrows a = 0")
  case True
  then show ?thesis by simp
next
  case False
  show ?thesis
  proof (cases "last (shape a) = 0 \<or> filt = []")
    case True
    have "map_err (\<lambda>i. conv (row a i) filt) [0..<nrows a] = Inl NumpyError"
    proof (rule map_err_Inl)
      show "[0..<nrows a] \<noteq> []" using False by simp
    next
      fix i assume "i \<in> set [0..<nrows a]"
      then have "length (row a i) = last (shape a)" using assms by (simp add: length_row)
      with True show "conv (row a i) filt = Inl NumpyError" by (auto simp: conv_eq)
    qed
    with False True show ?thesis by simp
  next
    case nz: False
    have "map_err (\<lambda>i. conv (row a i) filt) [0..<nrows a]
          = Inr (map (\<lambda>i. conv_out (row a i) filt) [0..<nrows a])"
    proof (rule map_err_Inr)
      fix i assume "i \<in> set [0..<nrows a]"
      then have "length (row a i) = last (shape a)" using assms by (simp add: length_row)
      with nz have "row a i \<noteq> []" by auto
      with nz show "conv (row a i) filt = Inr (conv_out (row a i) filt)" by (simp add: conv_eq)
    qed
    with False nz show ?thesis by simp
  qed
qed

lemma convvect_eq:
  assumes "wf_array a" "shape a \<noteq> []"
  shows "convvect a filt =
          (if nrows a = 0 \<or> last (shape a) = 0 \<or> filt = [] then Inl NumpyError
           else Inr \<lparr>shape = shape a,
                     buf = concat (map (\<lambda>i. conv_out (row a i) filt) [0..<nrows a])\<rparr>)"
proof (cases "nrows a = 0 \<or> last (shape a) = 0 \<or> filt = []")
  case True
  then show ?thesis using assms by (auto simp: convvect_def conv_rows)
next
  case False
  then have pos: "0 < nrows a" by simp
  then have upt: "[0..<nrows a] = 0 # [1..<nrows a]" by (simp add: upt_rec)
  have "length (conv_out (row a 0) filt) = last (shape a)"
    using False pos assms by (simp add: length_row)
  moreover have "butlast (shape a) @ [last (shape a)] = shape a" using assms by simp
  ultimately show ?thesis using False assms
    by (simp add: convvect_def conv_rows) (simp add: upt)
qed

lemma map_err_wrap:
  "map_err (\<lambda>x. case f x of Inl e \<Rightarrow> Inl e | Inr r \<Rightarrow> Inr (g r)) xs
   = (case map_err f xs of Inl e \<Rightarrow> Inl e | Inr rs \<Rightarrow> Inr (map g rs))"
  by (induction xs) (simp_all split: sum.splits)

lemma map_err_cong:
  "(\<And>x. x \<in> set xs \<Longrightarrow> f x = g x) \<Longrightarrow> map_err f xs = map_err g xs"
  by (induction xs) (simp_all split: sum.splits)

lemma apply_along_axis_1_conv:
  "shape arr = [n0, n1] \<Longrightarrow> apply_along_axis_1 (\<lambda>x. conv x filt) arr = convvect arr filt"
  by (simp add: apply_along_axis_1_def convvect_def nrows_def split: sum.splits list.splits)

lemma convolve_manual_1d:
  assumes "wf_array a" "shape a = [n]"
  shows "conv_1d a filt = convvect a filt"
proof -
  have len: "length (buf a) = n" using assms by (simp add: wf_array_def)
  then have row0: "row a 0 = buf a" using assms by (simp add: row_def)
  have nr: "nrows a = 1" using assms by (simp add: nrows_def)
  have "buf a = [] \<longleftrightarrow> n = 0" using len by auto
  then show ?thesis using assms len
    by (simp add: convvect_eq nr row0 conv_1d_def conv_eq)
qed

lemma np_stack_map:
  assumes "0 < k" "\<And>i. i < k \<Longrightarrow> shape (g i) = s"
  shows "np_stack (map g [0..<k]) = Inr \<lparr>shape = k # s, buf = concat (map (\<lambda>i. buf (g i)) [0..<k])\<rparr>"
proof -
  from assms(1) have upt: "[0..<k] = 0 # [1..<k]" by (simp add: upt_rec)
  have "list_all (\<lambda>b. shape b = shape (g 0)) (map g [1..<k])"
    using assms by (simp add: list_all_iff)
  moreover have "length (map g [0..<k]) = k" by simp
  ultimately show ?thesis using assms
    unfolding np_stack_def by (simp add: upt comp_def)
qed

lemma convolve_manual_2d:
  assumes "wf_array a" "shape a = [r, n]"
  shows "(case subarrays a of
            Inl e \<Rightarrow> Inl e
          | Inr array0s \<Rightarrow>
              (case map_err (\<lambda>array0. if ndim array0 = 1 then conv_1d array0 filt
                                       else apply_along_axis_1 (\<lambda>x. conv x filt) array0) array0s of
                 Inl e \<Rightarrow> Inl e
               | Inr array_convolve \<Rightarrow> np_stack array_convolve)) = convvect a filt"
proof -
  have ne: "shape a \<noteq> []" using assms by simp
  have nr: "nrows a = r" and la: "last (shape a) = n" using assms by (simp_all add: nrows_def)
  let ?sub = "\<lambda>i. \<lparr>shape = [n], buf = row a i\<rparr>"
  have subs: "subarrays a = Inr (map ?sub [0..<r])"
    using assms by (simp add: subarrays_def row_def)
  have step: "map_err (\<lambda>array0. if ndim array0 = 1 then conv_1d array0 filt
                      else apply_along_axis_1 (\<lambda>x. conv x filt) array0) (map ?sub [0..<r])
        = (case map_err (\<lambda>i. conv (row a i) filt) [0..<r] of
             Inl e \<Rightarrow> Inl e
           | Inr rs \<Rightarrow> Inr (map (\<lambda>res. \<lparr>shape = [length res], buf = res\<rparr>) rs))"
    by (simp add: map_err_map ndim_def conv_1d_def map_err_wrap)
  have lhs: "(case subarrays a of
            Inl e \<Rightarrow> Inl e
          | Inr array0s \<Rightarrow>
              (case map_err (\<lambda>array0. if ndim array0 = 1 then conv_1d array0 filt
                                       else apply_along_axis_1 (\<lambda>x. conv x filt) array0) array0s of
                 Inl e \<Rightarrow> Inl e
               | Inr array_convolve \<Rightarrow> np_stack array_convolve))
        = (case map_err (\<lambda>array0. if ndim array0 = 1 then conv_1d array0 filt
                      else apply_along_axis_1 (\<lambda>x. conv x filt) array0) (map ?sub [0..<r]) of
             Inl e \<Rightarrow> Inl e
           | Inr array_convolve \<Rightarrow> np_stack array_convolve)"
    by (simp only: subs sum.case)
  have rows: "map_err (\<lambda>i. conv (row a i) filt) [0..<r] =
          (if r = 0 then Inr []
           else if n = 0 \<or> filt = [] then Inl NumpyError
           else Inr (map (\<lambda>i. conv_out (row a i) filt) [0..<r]))"
    using conv_rows [OF assms(1) ne, of filt] by (simp add: nr la)
  have cv: "convvect a filt =
          (if r = 0 \<or> n = 0 \<or> filt = [] then Inl NumpyError
           else Inr \<lparr>shape = [r, n], buf = concat (map (\<lambda>i. conv_out (row a i) filt) [0..<r])\<rparr>)"
    using convvect_eq [OF assms(1) ne, of filt] by (simp add: nr assms(2))
  show ?thesis
  proof (cases "r = 0 \<or> n = 0 \<or> filt = []")
    case True
    show ?thesis unfolding lhs step rows cv using True by (auto simp: np_stack_def)
  next
    case False
    then have r: "0 < r" by simp
    have "np_stack (map (\<lambda>i. \<lparr>shape = [length (conv_out (row a i) filt)], buf = conv_out (row a i) filt\<rparr>) [0..<r])
        = Inr \<lparr>shape = r # [n], buf = concat (map (\<lambda>i. conv_out (row a i) filt) [0..<r])\<rparr>"
      using False assms ne by (subst np_stack_map [OF r, where s = "[n]"]) (simp_all add: length_row nr la)
    then show ?thesis unfolding lhs step rows cv using False by (simp add: comp_def)
  qed
qed

lemma subarray_3d:
  assumes "wf_array a" "shape a = [p, r, n]" "q < p"
  defines "sub \<equiv> \<lparr>shape = [r, n], buf = take (r * n) (drop (q * (r * n)) (buf a))\<rparr>"
  shows "wf_array sub" and "\<And>i. i < r \<Longrightarrow> row sub i = row a (q * r + i)"
proof -
  have len: "length (buf a) = p * (r * n)" using assms by (simp add: wf_array_def)
  from \<open>q < p\<close> have "Suc q * (r * n) \<le> p * (r * n)" by (intro mult_le_mono1) simp
  then have le: "r * n \<le> p * (r * n) - q * (r * n)" by simp
  with len show "wf_array sub" by (simp add: sub_def wf_array_def)
  fix i assume "i < r"
  then have "Suc i * n \<le> r * n" by (intro mult_le_mono1) simp
  then have le2: "n \<le> r * n - i * n" by simp
  have "row sub i = take n (drop (i * n) (take (r * n) (drop (q * (r * n)) (buf a))))"
    by (simp add: row_def sub_def)
  also have "\<dots> = take n (drop (i * n + q * (r * n)) (buf a))"
    using le2 by (simp add: drop_take min_def)
  also have "i * n + q * (r * n) = (q * r + i) * n" by (simp add: algebra_simps)
  finally show "row sub i = row a (q * r + i)" using assms(2) by (simp add: row_def)
qed

lemma convolve_manual_3d:
  assumes "wf_array a" "shape a = [p, r, n]"
  shows "(case subarrays a of
            Inl e \<Rightarrow> Inl e
          | Inr array0s \<Rightarrow>
              (case map_err (\<lambda>array0. if ndim array0 = 1 then conv_1d array0 filt
                                       else apply_along_axis_1 (\<lambda>x. conv x filt) array0) array0s of
                 Inl e \<Rightarrow> Inl e
               | Inr array_convolve \<Rightarrow> np_stack array_convolve)) = convvect a filt"
proof -
  have ne: "shape a \<noteq> []" using assms by simp
  have nr: "nrows a = p * r" using assms by (simp add: nrows_def)
  let ?sub = "\<lambda>q. \<lparr>shape = [r, n], buf = take (r * n) (drop (q * (r * n)) (buf a))\<rparr>"
  let ?H = "\<lambda>q. \<lparr>shape = [r, n],
                  buf = concat (map (\<lambda>i. conv_out (row a (q * r + i)) filt) [0..<r])\<rparr>"
  let ?bad = "r = 0 \<or> n = 0 \<or> filt = []"
  have subs: "subarrays a = Inr (map ?sub [0..<p])"
    using assms by (simp add: subarrays_def)
  have lhs: "(case subarrays a of
            Inl e \<Rightarrow> Inl e
          | Inr array0s \<Rightarrow>
              (case map_err (\<lambda>array0. if ndim array0 = 1 then conv_1d array0 filt
                                       else apply_along_axis_1 (\<lambda>x. conv x filt) array0) array0s of
                 Inl e \<Rightarrow> Inl e
               | Inr array_convolve \<Rightarrow> np_stack array_convolve))
        = (case map_err (\<lambda>array0. if ndim array0 = 1 then conv_1d array0 filt
                      else apply_along_axis_1 (\<lambda>x. conv x filt) array0) (map ?sub [0..<p]) of
             Inl e \<Rightarrow> Inl e
           | Inr array_convolve \<Rightarrow> np_stack array_convolve)"
    by (simp only: subs sum.case)
  have step1: "map_err (\<lambda>array0. if ndim array0 = 1 then conv_1d array0 filt
                      else apply_along_axis_1 (\<lambda>x. conv x filt) array0) (map ?sub [0..<p])
        = map_err (\<lambda>q. convvect (?sub q) filt) [0..<p]"
    by (simp add: map_err_map ndim_def apply_along_axis_1_conv)
  have sub_eq: "convvect (?sub q) filt = (if ?bad then Inl NumpyError else Inr (?H q))"
    if "q < p" for q
  proof -
    have wf: "wf_array (?sub q)" and rows: "\<And>i. i < r \<Longrightarrow> row (?sub q) i = row a (q * r + i)"
      using subarray_3d [OF assms that] by auto
    have m: "map (\<lambda>i. conv_out (row (?sub q) i) filt) [0..<r]
          = map (\<lambda>i. conv_out (row a (q * r + i)) filt) [0..<r]"
      by (intro map_cong refl) (simp add: rows)
    have nrs: "nrows (?sub q) = r" by (simp add: nrows_def)
    have "convvect (?sub q) filt =
          (if nrows (?sub q) = 0 \<or> last (shape (?sub q)) = 0 \<or> filt = [] then Inl NumpyError
           else Inr \<lparr>shape = shape (?sub q),
                     buf = concat (map (\<lambda>i. conv_out (row (?sub q) i) filt) [0..<nrows (?sub q)])\<rparr>)"
      by (rule convvect_eq [OF wf]) simp
    then show ?thesis unfolding nrs m by simp
  qed
  have step2: "map_err (\<lambda>q. convvect (?sub q) filt) [0..<p]
        = map_err (\<lambda>q. if ?bad then Inl NumpyError else Inr (?H q)) [0..<p]"
    by (intro map_err_cong) (simp add: sub_eq)
  have cv: "convvect a filt =
          (if p = 0 \<or> ?bad then Inl NumpyError
           else Inr \<lparr>shape = [p, r, n], buf = concat (map (\<lambda>i. conv_out (row a i) filt) [0..<p * r])\<rparr>)"
    using convvect_eq [OF assms(1) ne, of filt] by (simp add: nr assms(2))
  show ?thesis
  proof (cases "p = 0")
    case True
    then show ?thesis unfolding lhs step1 step2 cv by (simp add: np_stack_def)
  next
    case p: False
    show ?thesis
    proof (cases ?bad)
      case True
      then have "map_err (\<lambda>q. if ?bad then Inl NumpyError else Inr (?H q)) [0..<p] = Inl NumpyError"
        using p by (intro map_err_Inl) auto
      then show ?thesis unfolding lhs step1 step2 cv using True by simp
    next
      case False
      then have "map_err (\<lambda>q. if ?bad then Inl NumpyError else Inr (?H q)) [0..<p] = Inr (map ?H [0..<p])"
        by (intro map_err_Inr) auto
      moreover have "np_stack (map ?H [0..<p])
          = Inr \<lparr>shape = p # [r, n], buf = concat (map (\<lambda>q. buf (?H q)) [0..<p])\<rparr>"
        using p by (intro np_stack_map) simp_all
      moreover have "concat (map (\<lambda>i. conv_out (row a i) filt) [0..<p * r])
          = concat (map (\<lambda>q. buf (?H q)) [0..<p])"
        by (simp add: concat_split [of "\<lambda>i. conv_out (row a i) filt" p r])
      ultimately show ?thesis unfolding lhs step1 step2 cv using False p by simp
    qed
  qed
qed

lemma convolve_manual_eq:
  assumes "wf_array a" "ndim a \<in> {1, 2, 3}" "\<not> ''1.12.0'' \<le> np_version"
  shows "convolve np_version a filt = convvect a filt"
proof -
  from assms(2) consider n where "shape a = [n]" | r n where "shape a = [r, n]"
    | p r n where "shape a = [p, r, n]"
    by (cases "shape a" rule: list.exhaust; simp add: ndim_def)
       (metis length_0_conv length_Suc_conv numeral_2_eq_2)
  then show ?thesis
  proof cases
    case 1
    then show ?thesis using assms convolve_manual_1d [OF assms(1) 1]
      by (simp add: convolve_def ndim_def)
  next
    case 2
    then show ?thesis using assms convolve_manual_2d [OF assms(1) 2]
      by (simp add: convolve_def ndim_def)
  next
    case 3
    then show ?thesis using assms convolve_manual_3d [OF assms(1) 3]
      by (simp add: convolve_def ndim_def)
  qed
qed

section \<open>Properties of \<^verbatim>\<open>convolve\<close>\<close>

lemma zero_in_shape_iff:
  assumes "shape a \<noteq> []"
  shows "nrows a = 0 \<or> last (shape a) = 0 \<longleftrightarrow> 0 \<in> set (shape a)"
proof -
  have "prod_list (shape a) = 0 \<longleftrightarrow> 0 \<in> set (shape a)" by (simp add: prod_list_zero_iff)
  moreover have "prod_list (shape a) = nrows a * last (shape a)"
    using assms by (simp add: nrows_def prod_list_butlast_last)
  ultimately show ?thesis by simp
qed

lemma convolve_eq:
  assumes "wf_array a" "shape a \<noteq> []" "''1.12.0'' \<le> np_version \<or> ndim a \<le> 3"
  shows "convolve np_version a filt =
          (if 0 \<in> set (shape a) \<or> filt = [] then Inl NumpyError
           else Inr \<lparr>shape = shape a,
                     buf = concat (map (\<lambda>i. conv_out (row a i) filt) [0..<nrows a])\<rparr>)"
proof -
  have "convolve np_version a filt = convvect a filt"
  proof (cases "''1.12.0'' \<le> np_version")
    case True
    then show ?thesis by (simp add: convolve_def)
  next
    case False
    have "0 < length (shape a)" using assms(2) by simp
    moreover have "length (shape a) \<le> 3" using False assms(3) by (simp add: ndim_def)
    ultimately have "ndim a \<in> {1, 2, 3}" unfolding ndim_def by (simp; arith)
    with False assms(1) show ?thesis by (rule_tac convolve_manual_eq)
  qed
  then show ?thesis
    using convvect_eq [OF assms(1,2), of filt] zero_in_shape_iff [OF assms(2)] by auto
qed

lemma conv_out_np_convolve:
  "x \<noteq> [] \<Longrightarrow> filt \<noteq> [] \<Longrightarrow>
   \<exists>full. np_convolve x filt = Inr full \<and> conv_out x filt = take (length x) full"
  by (simp add: np_convolve_eq conv_out_def)

lemma convolve_Inr:
  assumes "wf_array a" "shape a \<noteq> []" "0 \<notin> set (shape a)" "filt \<noteq> []"
    and "''1.12.0'' \<le> np_version \<or> ndim a \<le> 3"
  obtains out where "convolve np_version a filt = Inr out" "shape out = shape a" "wf_array out"
    and "\<And>i. i < nrows a \<Longrightarrow> row out i = conv_out (row a i) filt"
proof -
  let ?n = "last (shape a)"
  let ?out = "\<lparr>shape = shape a, buf = concat (map (\<lambda>i. conv_out (row a i) filt) [0..<nrows a])\<rparr>"
  have res: "convolve np_version a filt = Inr ?out"
    using convolve_eq [OF assms(1,2,5), of filt] assms(3,4) by simp
  have len: "length (conv_out (row a i) filt) = ?n" if "i < nrows a" for i
    using that assms by (simp add: length_row)
  have "length (buf ?out) = nrows a * ?n"
    using len by (simp add: length_concat_chunks)
  then have wf: "wf_array ?out"
    using assms(2) by (simp add: wf_array_def nrows_def prod_list_butlast_last)
  have rows: "row ?out i = conv_out (row a i) filt" if "i < nrows a" for i
    using concat_chunk [of "nrows a" "\<lambda>i. conv_out (row a i) filt" ?n i] len that
    by (simp add: row_def)
  from res wf rows show ?thesis by (intro that [of ?out]) simp_all
qed

lemma row_nonempty:
  assumes "wf_array a" "shape a \<noteq> []" "0 \<notin> set (shape a)" "i < nrows a"
  shows "row a i \<noteq> []"
proof -
  have "0 < last (shape a)" using assms(2,3) by (metis last_in_set gr0I)
  with length_row [OF assms(1,2,4)] show ?thesis by auto
qed

lemma convolve_example:
  "convolve ''1.26.4'' \<lparr>shape = [2, 3], buf = [1, 2, 3, 4, 5, 6]\<rparr> [1, 1]
     = Inr \<lparr>shape = [2, 3], buf = [1, 3, 5, 4, 9, 11]\<rparr>"
  "convolve ''1.11.3'' \<lparr>shape = [2, 3], buf = [1, 2, 3, 4, 5, 6]\<rparr> [1, 1]
     = Inr \<lparr>shape = [2, 3], buf = [1, 3, 5, 4, 9, 11]\<rparr>"
  by code_simp+

text \<open>The 1-D case: the output has the length of the input.\<close>

lemma convolve_1d:
  assumes "x \<noteq> []" "filt \<noteq> []"
  shows "\<exists>res full. convolve np_version \<lparr>shape = [length x], buf = x\<rparr> filt
             = Inr \<lparr>shape = [length x], buf = res\<rparr>
           \<and> length res = length x
           \<and> np_convolve x filt = Inr full \<and> res = take (length x) full"
proof -
  let ?a = "\<lparr>shape = [length x], buf = x\<rparr>"
  have "wf_array ?a" "shape ?a \<noteq> []" "0 \<notin> set (shape ?a)"
    and "''1.12.0'' \<le> np_version \<or> ndim ?a \<le> 3"
    using assms(1) by (simp_all add: wf_array_def ndim_def)
  from convolve_eq [OF this(1,2,4), of filt] this(3) assms(2)
  have "convolve np_version ?a filt = Inr \<lparr>shape = [length x], buf = conv_out x filt\<rparr>"
    by (simp add: nrows_def row_def)
  with conv_out_np_convolve [OF assms] assms(2) show ?thesis by auto
qed

text \<open>
  C1, for non-empty arrays and filters. For every array of dimension \<open>N \<ge> 1\<close> without
  an axis of length 0 and every non-empty 1-D filter, where \<open>N \<le> 3\<close> if the manual branch is taken
  (\<^verbatim>\<open>np.__version__\<close> below \<^verbatim>\<open>'1.12.0'\<close> as strings), \<^verbatim>\<open>convolve\<close> returns an array of the
  same shape in which every 1-D slice along the last axis is the first \<open>len(slice)\<close>
  elements of \<^verbatim>\<open>np.convolve(slice, filt)\<close>, the full convolution. For a 1-D array the
  shape is its length, so the output has the length of the input.
\<close>

theorem convolve_rows:
  assumes "wf_array a" "shape a \<noteq> []" "0 \<notin> set (shape a)" "filt \<noteq> []"
    and "''1.12.0'' \<le> np_version \<or> ndim a \<le> 3"
  shows "\<exists>out. convolve np_version a filt = Inr out \<and> shape out = shape a \<and> wf_array out
           \<and> (\<forall>i<nrows a. \<exists>full. np_convolve (row a i) filt = Inr full
                  \<and> row out i = take (length (row a i)) full)"
proof -
  from convolve_Inr [OF assms] obtain out
    where out: "convolve np_version a filt = Inr out" "shape out = shape a" "wf_array out"
      and rows: "\<And>i. i < nrows a \<Longrightarrow> row out i = conv_out (row a i) filt"
    by blast
  have "\<exists>full. np_convolve (row a i) filt = Inr full \<and> row out i = take (length (row a i)) full"
    if "i < nrows a" for i
    using conv_out_np_convolve [OF row_nonempty [OF assms(1,2,3) that] assms(4)] rows [OF that]
    by simp
  with out show ?thesis by blast
qed

theorem convolve_rows_witness:
  "wf_array \<lparr>shape = [2, 3], buf = [1, 2, 3, 4, 5, 6]\<rparr>
   \<and> shape \<lparr>shape = [2, 3], buf = [1, 2, 3, 4, 5, 6]\<rparr> \<noteq> []
   \<and> 0 \<notin> set (shape \<lparr>shape = [2, 3], buf = [1, 2, 3, 4, 5, 6]\<rparr>)
   \<and> [1, 1] \<noteq> ([] :: real list)
   \<and> (''1.12.0'' \<le> ''1.26.4'' \<or> ndim \<lparr>shape = [2, 3], buf = [1, 2, 3, 4, 5, 6]\<rparr> \<le> 3)
   \<and> (\<exists>out. convolve ''1.26.4'' \<lparr>shape = [2, 3], buf = [1, 2, 3, 4, 5, 6]\<rparr> [1, 1] = Inr out
          \<and> shape out = shape \<lparr>shape = [2, 3], buf = [1, 2, 3, 4, 5, 6]\<rparr> \<and> wf_array out
          \<and> (\<forall>i<nrows \<lparr>shape = [2, 3], buf = [1, 2, 3, 4, 5, 6]\<rparr>.
                \<exists>full. np_convolve (row \<lparr>shape = [2, 3], buf = [1, 2, 3, 4, 5, 6]\<rparr> i) [1, 1] = Inr full
                  \<and> row out i = take (length (row \<lparr>shape = [2, 3], buf = [1, 2, 3, 4, 5, 6]\<rparr> i)) full))"
proof -
  let ?a = "\<lparr>shape = [2, 3], buf = [1, 2, 3, 4, 5, 6 :: real]\<rparr>"
  have h1: "wf_array ?a" by (simp add: wf_array_def)
  have h2: "shape ?a \<noteq> []" by simp
  have h3: "0 \<notin> set (shape ?a)" by simp
  have h4: "[1, 1] \<noteq> ([] :: real list)" by simp
  have h5: "''1.12.0'' \<le> ''1.26.4'' \<or> ndim ?a \<le> 3" by simp
  from convolve_rows [OF h1 h2 h3 h4 h5] h1 h2 h3 h4 h5 show ?thesis by blast
qed

text \<open>
  C1 does not hold for every array and every filter: an empty filter and an array with
  an empty axis make \<^verbatim>\<open>np.convolve\<close> raise, and under the manual branch an array of 4
  dimensions is rejected.
\<close>

theorem convolve_rows_counterexample:
  "convolve ''1.26.4'' \<lparr>shape = [2], buf = [1, 2]\<rparr> [] = Inl NumpyError
   \<and> convolve ''1.26.4'' \<lparr>shape = [0], buf = []\<rparr> [1] = Inl NumpyError
   \<and> convolve ''1.11.3'' \<lparr>shape = [1, 1, 1, 1], buf = [5]\<rparr> [1] = Inl ValueError_ndim"
  by code_simp

text \<open>
  C8. When \<^verbatim>\<open>convolve\<close> takes its manual branch (\<^verbatim>\<open>np.__version__\<close> below \<^verbatim>\<open>'1.12.0'\<close>), an
  array of more than 3 dimensions is rejected with the \<^verbatim>\<open>ValueError\<close> of that branch,
  and for an array of 1, 2 or 3 dimensions the result (the array returned, or the failure
  of a NumPy primitive) is the one of the \<^verbatim>\<open>np.vectorize\<close> branch.
\<close>

theorem convolve_manual_branch:
  assumes "\<not> ''1.12.0'' \<le> old_version" "''1.12.0'' \<le> new_version" "wf_array a"
  shows "(3 < ndim a \<longrightarrow> convolve old_version a filt = Inl ValueError_ndim)
       \<and> (ndim a \<in> {1, 2, 3} \<longrightarrow> convolve old_version a filt = convolve new_version a filt)"
proof (intro conjI impI)
  assume "3 < ndim a"
  with assms(1) show "convolve old_version a filt = Inl ValueError_ndim"
    by (simp add: convolve_def)
next
  assume "ndim a \<in> {1, 2, 3}"
  from convolve_manual_eq [OF assms(3) this assms(1)] assms(2)
  show "convolve old_version a filt = convolve new_version a filt"
    by (simp add: convolve_def)
qed

theorem convolve_manual_branch_witness:
  "\<not> ''1.12.0'' \<le> ''1.11.3'' \<and> ''1.12.0'' \<le> ''1.26.4''
   \<and> wf_array \<lparr>shape = [1, 1, 1, 1], buf = [5]\<rparr>
   \<and> 3 < ndim \<lparr>shape = [1, 1, 1, 1], buf = [5]\<rparr>
   \<and> convolve ''1.11.3'' \<lparr>shape = [1, 1, 1, 1], buf = [5]\<rparr> [1] = Inl ValueError_ndim
   \<and> wf_array \<lparr>shape = [2, 1, 2], buf = [1, 2, 3, 4]\<rparr>
   \<and> ndim \<lparr>shape = [2, 1, 2], buf = [1, 2, 3, 4]\<rparr> \<in> {1, 2, 3}
   \<and> convolve ''1.11.3'' \<lparr>shape = [2, 1, 2], buf = [1, 2, 3, 4]\<rparr> [1, 1]
       = convolve ''1.26.4'' \<lparr>shape = [2, 1, 2], buf = [1, 2, 3, 4]\<rparr> [1, 1]"
proof -
  have v1: "\<not> ''1.12.0'' \<le> ''1.11.3''" and v2: "''1.12.0'' \<le> ''1.26.4''" by simp_all
  have w4: "wf_array \<lparr>shape = [1, 1, 1, 1], buf = [5]\<rparr>"
    and w3: "wf_array \<lparr>shape = [2, 1, 2], buf = [1, 2, 3, 4]\<rparr>"
    by (simp_all add: wf_array_def)
  have d4: "3 < ndim \<lparr>shape = [1, 1, 1, 1], buf = [5]\<rparr>"
    and d3: "ndim \<lparr>shape = [2, 1, 2], buf = [1, 2, 3, 4]\<rparr> \<in> {1, 2, 3}"
    by (simp_all add: ndim_def)
  from convolve_manual_branch [OF v1 v2 w4, of "[1]"] convolve_manual_branch [OF v1 v2 w3, of "[1, 1]"]
    v1 v2 w4 w3 d4 d3
  show ?thesis by blast
qed

section \<open>Properties of \<^verbatim>\<open>_npairs\<close>\<close>

lemma bitlen_le: "x < 2 ^ k \<Longrightarrow> bitlen x \<le> int k"
proof (cases "0 < x")
  case True
  assume lt: "x < 2 ^ k"
  from bitlen_bounds [OF True] have "(2::int) ^ nat (bitlen x - 1) \<le> x" by simp
  with lt have "(2::int) ^ nat (bitlen x - 1) < 2 ^ k" by linarith
  then have "nat (bitlen x - 1) < k" by simp
  then show ?thesis by linarith
next
  case False
  then have "bitlen x = 0" by (simp add: bitlen_eq_zero_iff)
  then show ?thesis by simp
qed

lemma rne_even: "even x \<Longrightarrow> rne x (Suc 0) = x div 2"
  by (auto simp: rne_def Let_def elim!: evenE)

lemma round53_small: "\<bar>m\<bar> < 2 ^ 53 \<Longrightarrow> round53 (Float m e) = Float m e"
  using bitlen_le [of "\<bar>m\<bar>" 53] by (simp add: Let_def)

lemma round53_even54:
  assumes "0 \<le> m" "m < 2 ^ 54" "even m"
  shows "int_of_float (round53 (Float m (-1))) = m div 2"
proof (cases "bitlen \<bar>m\<bar> - 53 \<le> 0")
  case True
  with assms show ?thesis by (simp add: Let_def sgn_if)
next
  case False
  moreover from bitlen_le [of m 54] assms have "bitlen m \<le> 54" by simp
  ultimately have k: "bitlen \<bar>m\<bar> - 53 = 1" using assms by simp
  from False assms have "m \<noteq> 0" by auto
  then show ?thesis using assms k by (simp add: Let_def rne_even sgn_if)
qed

lemma float_of_int_small: "\<bar>x\<bar> < 2 ^ 53 \<Longrightarrow> float_of_int x = Inr (Float x 0)"
  using bitlen_le [of "\<bar>x\<bar>" 53] by (simp add: float_of_int_def Let_def)

lemma float_of_int_even54:
  assumes "0 \<le> x" "x < 2 ^ 54" "even x"
  shows "float_of_int x = Inr (Float x 0) \<or> float_of_int x = Inr (Float (x div 2) 1)"
proof (cases "bitlen \<bar>x\<bar> - 53 \<le> 0")
  case True
  then show ?thesis by (simp add: float_of_int_def Let_def)
next
  case False
  moreover from bitlen_le [of x 54] assms have "bitlen x \<le> 54" by simp
  ultimately have k: "bitlen \<bar>x\<bar> - 53 = 1" using assms by simp
  from False assms have pos: "0 < x" by (cases "x = 0") auto
  from assms have "x div 2 < 2 ^ 53" by simp
  from bitlen_le [OF this] have "bitlen (x div 2) \<le> 53" by simp
  with pos assms k have "float_of_int x = Inr (Float (x div 2) 1)"
    by (simp add: float_of_int_def Let_def rne_even)
  then show ?thesis ..
qed

text \<open>
  Below \<open>2 ^ 27\<close> items no intermediate value is rounded away: the result is the number
  of unordered pairs, self-pairs included.
\<close>

lemma npairs_exact:
  assumes "2 \<le> n" "n < 2 ^ 27"
  shows "npairs n = Inr (n * (n + 1) div 2)"
proof -
  let ?x = "n * (n - 1)"
  let ?y = "n * (n + 1)"
  have "n * (n + 1) \<le> (2 ^ 27 - 1) * 2 ^ 27"
    using assms by (intro mult_mono) auto
  then have y54: "?y < 2 ^ 54" by simp
  have "?x \<le> ?y" using assms by (intro mult_left_mono) auto
  with y54 have x54: "?x < 2 ^ 54" by linarith
  have x0: "0 \<le> ?x" using assms by simp
  have y0: "0 \<le> ?y" using assms by simp
  have evx: "even ?x" by simp
  have evy: "even ?y" by simp
  have fn: "float_of_int n = Inr (Float n 0)"
    using assms by (intro float_of_int_small) auto
  have xy: "?x + n * 2 = ?y" by (simp add: algebra_simps)
  from float_of_int_even54 [OF x0 x54 evx] show ?thesis
  proof
    assume fx: "float_of_int ?x = Inr (Float ?x 0)"
    have "int_of_float (float_add (float_half (Float ?x 0)) (Float n 0)) = ?y div 2"
      using round53_even54 [OF y0 y54 evy] xy
      by (simp add: Let_def del: round53.simps int_of_float.simps)
    with fx fn assms show ?thesis by (simp add: npairs_def)
  next
    assume fx: "float_of_int ?x = Inr (Float (?x div 2) 1)"
    have "?x div 2 + n = ?y div 2"
      using xy evx
      by (metis div_plus_div_distrib_dvd_left dvd_triv_right
          nonzero_mult_div_cancel_right zero_neq_numeral)
    moreover have "?y div 2 < 2 ^ 53" using y54 by simp
    moreover have "0 \<le> ?y div 2" using y0 by simp
    ultimately have
      "int_of_float (float_add (float_half (Float (?x div 2) 1)) (Float n 0)) = ?y div 2"
      using round53_small [of "?y div 2" 0] by (simp add: Let_def del: round53.simps)
    with fx fn assms show ?thesis by (simp add: npairs_def)
  qed
qed

lemma npairs_examples: "npairs 2 = Inr 3" "npairs 3 = Inr 6" "npairs 1 = Inl (ValueError_npairs 1)"
  by (simp_all add: npairs_exact) (simp add: npairs_def)

lemma npairs_exact_at_2_27: "npairs 134217728 = Inr (134217728 * (134217728 + 1) div 2)"
  by code_simp

text \<open>The error that names the count is raised exactly when fewer than 2 items are passed.\<close>

lemma npairs_ValueError_iff: "npairs n = Inl (ValueError_npairs n) \<longleftrightarrow> n < 2"
  by (simp add: npairs_def float_of_int_def Let_def split: sum.splits)

text \<open>
  C5. For every integer \<open>n_items \<ge> 2\<close>, \<^verbatim>\<open>_npairs\<close> is claimed to return exactly
  \<open>n_items * (n_items + 1) / 2\<close>. The code divides by the float \<^verbatim>\<open>2.\<close>, and at
  \<open>n_items = 2 ^ 27 + 1 = 134217729\<close> the float sum is rounded: the code returns
  9007199456067584, one less than the number of pairs 9007199456067585.
\<close>

theorem npairs_off_by_one_at_134217729:
  "npairs 134217729 = Inr 9007199456067584
   \<and> (134217729 * (134217729 + 1) div 2 :: int) = 9007199456067585"
  by code_simp

text \<open>
  C7. \<^verbatim>\<open>_npairs\<close> is claimed to raise no error for any \<open>n_items \<ge> 2\<close>. At
  \<open>n_items = 2 ^ 512\<close> the product \<open>n_items * (n_items - 1)\<close> is too large to convert
  to a float and the division by \<^verbatim>\<open>2.\<close> raises \<^verbatim>\<open>OverflowError\<close>.
\<close>

theorem npairs_OverflowError_at_2_512:
  "npairs (2 ^ 512) = Inl OverflowError"
  by code_simp

section \<open>Properties of \<^verbatim>\<open>_get_unique_targets\<close>\<close>

lemma np_array_ints_int64:
  "list_all (\<lambda>x. - (2 ^ 63) \<le> x \<and> x < 2 ^ 63) xs \<Longrightarrow> np_array_ints xs = xs"
  by (simp add: np_array_ints_def)

lemma get_unique_targets_example:
  "get_unique_targets np_array_ints [1, 2, 2, 3] [2, 3, 3, 4] = [2, 3]"
  by code_simp

lemma get_unique_targets_disjoint_example:
  "get_unique_targets np_array_ints [1] [2] = []"
  by code_simp

lemma np_array_ints_mixed_example:
  "np_array_ints [2 ^ 63, 1] = [2 ^ 63, 1] \<and> np_array_ints [2 ^ 63 + 1, 2] = [2 ^ 63, 2]"
  by code_simp

text \<open>
  C6. For every pair of label sequences and every conversion to an array,
  \<^verbatim>\<open>_get_unique_targets\<close> returns an ascending, duplicate-free sequence whose elements are
  exactly the values that occur in both arrays, the converted inputs; when the
  conversion leaves both sequences as they are, these are exactly the labels that occur
  in both inputs. The function is total, so an empty intersection gives the empty
  sequence and no error. A conversion that changes the labels can give a value that is
  not a label of both inputs: the Python ints \<open>[2 ^ 63, 1]\<close> and \<open>[2 ^ 63 + 1, 2]\<close> both
  become float64 arrays, which share \<open>2 ^ 63\<close>.
\<close>

theorem get_unique_targets_sorted_distinct_inter:
  "sorted (get_unique_targets asarray a b) \<and> distinct (get_unique_targets asarray a b)
   \<and> set (get_unique_targets asarray a b) = set (asarray a) \<inter> set (asarray b)
   \<and> (asarray a = a \<and> asarray b = b
        \<longrightarrow> set (get_unique_targets asarray a b) = set a \<inter> set b)
   \<and> (set (asarray a) \<inter> set (asarray b) = {} \<longrightarrow> get_unique_targets asarray a b = [])"
  by (auto simp: get_unique_targets_def np_unique_def)

theorem get_unique_targets_sorted_distinct_inter_witness:
  "np_array_ints [1, 2, 2, 3] = [1, 2, 2, 3] \<and> np_array_ints [2, 3, 3, 4] = [2, 3, 3, 4]
   \<and> set (get_unique_targets np_array_ints [1, 2, 2, 3] [2, 3, 3, 4])
     = set [1, 2, 2, 3] \<inter> set [2, 3, 3, 4]
   \<and> set (np_array_ints [1]) \<inter> set (np_array_ints [2]) = {}
   \<and> get_unique_targets np_array_ints [1] [2] = []"
proof -
  have a: "np_array_ints [1, 2, 2, 3] = [1, 2, 2, 3]" "np_array_ints [2, 3, 3, 4] = [2, 3, 3, 4]"
    by (simp_all add: np_array_ints_def)
  have e: "set (np_array_ints [1]) \<inter> set (np_array_ints [2]) = {}"
    by (simp add: np_array_ints_def)
  from get_unique_targets_sorted_distinct_inter
         [where asarray = np_array_ints and a = "[1, 2, 2, 3]" and b = "[2, 3, 3, 4]"] a
  have "set (get_unique_targets np_array_ints [1, 2, 2, 3] [2, 3, 3, 4])
        = set [1, 2, 2, 3] \<inter> set [2, 3, 3, 4]"
    by blast
  moreover from get_unique_targets_sorted_distinct_inter
         [where asarray = np_array_ints and a = "[1]" and b = "[2]"] e
  have "get_unique_targets np_array_ints [1] [2] = []" by blast
  ultimately show ?thesis using a e by blast
qed

theorem get_unique_targets_sorted_distinct_inter_counterexample:
  "get_unique_targets np_array_ints [2 ^ 63, 1] [2 ^ 63 + 1, 2] = [2 ^ 63]
   \<and> 2 ^ 63 \<notin> set [2 ^ 63 + 1, 2 :: int]"
  by code_simp

section \<open>Float products\<close>

lemma rne_div_bounds:
  assumes "0 < b"
  shows "2 * a - b \<le> 2 * (rne_div a b * b)" and "2 * (rne_div a b * b) \<le> 2 * a + b"
proof -
  define q where "q = a div b"
  define r where "r = a mod b"
  have a: "a = q * b + r" by (simp add: q_def r_def)
  have r: "0 \<le> r" "r < b" using assms by (simp_all add: r_def)
  have "rne_div a b = q \<and> 2 * r \<le> b \<or> rne_div a b = q + 1 \<and> b \<le> 2 * r"
    by (auto simp: rne_div_def Let_def q_def r_def)
  then show "2 * a - b \<le> 2 * (rne_div a b * b)" and "2 * (rne_div a b * b) \<le> 2 * a + b"
    using a r by (auto simp: algebra_simps)
qed

lemma rne_bounds: "x div 2 ^ k \<le> rne x k" "rne x k \<le> x div 2 ^ k + 1"
  by (auto simp: rne_def Let_def)

lemma rne_down: "2 * (x mod 2 ^ k) < 2 ^ k \<Longrightarrow> rne x k = x div 2 ^ k"
  by (simp add: rne_def Let_def)

lemma ceil_unit:
  fixes M :: int
  assumes "0 < M" "M \<le> 2 ^ n"
  shows "- ((- M) div 2 ^ n) = 1"
proof -
  have "(- M + 2 ^ n) div 2 ^ n = 0"
    using assms by (intro div_pos_pos_trivial) auto
  moreover have "(- M + 2 ^ n) div 2 ^ n = (- M) div 2 ^ n + 1"
    by (rule div_add_self2) simp
  ultimately show ?thesis by simp
qed

lemma bitlen_eqI:
  assumes "2 ^ n \<le> x" "x < 2 ^ Suc n"
  shows "bitlen x = int n + 1"
proof -
  have "bitlen x \<le> int (Suc n)" using assms(2) by (rule bitlen_le)
  moreover have "(2::int) ^ (nat (int (Suc n)) - 1) \<le> x"
    using assms(1) by (simp only: nat_int diff_Suc_1)
  then have "int (Suc n) \<le> bitlen x"
    using bitlen_ge_iff_power [of "int (Suc n)" x] by blast
  ultimately show ?thesis by simp
qed

lemma recip_product_bounds:
  assumes "0 < m"
  defines "n \<equiv> nat (bitlen m)"
  defines "P \<equiv> rne_div (2 ^ (n + 52)) m * m"
  shows "2 ^ (n + 52) - 2 ^ (n - 1) < P" and "P < 2 ^ (n + 52) + 2 ^ (n - 1)" and "1 \<le> n"
proof -
  have b1: "1 \<le> bitlen m" using assms(1) bitlen_eq_zero_iff [of m] bitlen_nonneg [of m] by linarith
  then show n1: "1 \<le> n" by (simp add: n_def)
  from bitlen_bounds [OF assms(1)] have "m < 2 ^ n" by (simp add: n_def)
  moreover have "(2::int) ^ n = 2 * 2 ^ (n - 1)" using n1 by (cases n) simp_all
  ultimately have m: "m < 2 * 2 ^ (n - 1)" by simp
  from rne_div_bounds [OF assms(1), of "2 ^ (n + 52)"]
  have "2 * 2 ^ (n + 52) - m \<le> 2 * P" "2 * P \<le> 2 * 2 ^ (n + 52) + m" by (simp_all add: P_def)
  with m show "2 ^ (n + 52) - 2 ^ (n - 1) < P" and "P < 2 ^ (n + 52) + 2 ^ (n - 1)" by linarith+
qed

lemma rne_0 [simp]: "rne x 0 = x"
  by (simp add: rne_def Let_def)

lemma round64_pos:
  assumes "0 < M" "bitlen M - 53 = int j" "- 1074 - e \<le> int j"
    and "bitlen (rne M j) + (e + int j) \<le> 1024"
  shows "round64 (Float M e) = Finite (Float (rne M j) (e + int j))"
proof -
  have k: "max (bitlen \<bar>M\<bar> - 53) (- 1074 - e) = int j"
    using assms(1,2,3) by simp
  have "0 \<le> M div 2 ^ j" using assms(1) by (simp add: pos_imp_zdiv_nonneg_iff)
  with rne_bounds(1) [of M j] have nn: "0 \<le> rne M j" by linarith
  show ?thesis
  proof (cases "j = 0")
    case True
    with assms(1,4) show ?thesis unfolding round64.simps k by (simp add: Let_def)
  next
    case False
    with assms(1,4) nn show ?thesis unfolding round64.simps k by (simp add: Let_def)
  qed
qed

lemma round64_pos_cases:
  assumes "0 < M" "- 1074 - e < bitlen M"
  shows "round64 (Float M e) = PosInf
       \<or> (\<exists>M' e'. round64 (Float M e) = Finite (Float M' e') \<and> 0 < M')"
proof -
  define k where "k = max (bitlen \<bar>M\<bar> - 53) (- 1074 - e)"
  define f where "f = (if k \<le> 0 then Float M e else Float (sgn M * rne \<bar>M\<bar> (nat k)) (e + k))"
  have r: "round64 (Float M e) = (if float_overflows f then PosInf else Finite f)"
    using assms(1) by (simp add: Let_def k_def f_def)
  have "\<exists>M' e'. f = Float M' e' \<and> 0 < M'"
  proof (cases "k \<le> 0")
    case True
    with assms(1) show ?thesis by (simp add: f_def)
  next
    case False
    have "k < bitlen M" using assms by (simp add: k_def)
    then have "nat k \<le> nat (bitlen M - 1)" by simp
    then have "(2::int) ^ nat k \<le> 2 ^ nat (bitlen M - 1)" by (intro power_increasing) simp_all
    also from bitlen_bounds [OF assms(1)] have "\<dots> \<le> M" by simp
    finally have "2 ^ nat k \<le> M" .
    from zdiv_mono1 [OF this, of "2 ^ nat k"] have "1 \<le> M div 2 ^ nat k" by simp
    with rne_bounds(1) [of M "nat k"] have "0 < rne M (nat k)" by linarith
    with False assms(1) show ?thesis by (simp add: f_def)
  qed
  with r show ?thesis by (cases "float_overflows f") (simp_all only: if_True if_False, blast+)
qed

lemma np_ceil_pos:
  assumes "0 < M"
  shows "\<exists>k. 1 \<le> k \<and> np_ceil (Finite (Float M e)) = Finite (Float k 0)"
proof (cases "0 \<le> e")
  case True
  have "0 < M * 2 ^ nat e" using assms by simp
  then have "1 \<le> M * 2 ^ nat e" by linarith
  with True show ?thesis by simp
next
  case False
  have "(- M) div 2 ^ nat (- e) < 0" using assms by (intro div_neg_pos_less0) simp_all
  then have "1 \<le> - ((- M) div 2 ^ nat (- e))" by linarith
  with False show ?thesis by simp
qed

text \<open>A positive window and a positive sampling frequency whose product does not underflow
  give at least one sample.\<close>

lemma nsamples_pos:
  assumes "0 < m1" "0 < m2" "- 1074 - (e1 + e2) < bitlen (m1 * m2)"
  shows "np_ceil (float_mul (Float m1 e1) (Float m2 e2)) = PosInf
       \<or> (\<exists>k. 1 \<le> k \<and> np_ceil (float_mul (Float m1 e1) (Float m2 e2)) = Finite (Float k 0))"
proof -
  have "0 < m1 * m2" using assms(1,2) by simp
  from round64_pos_cases [OF this assms(3)]
  have "round64 (Float (m1 * m2) (e1 + e2)) = PosInf
      \<or> (\<exists>M' e'. round64 (Float (m1 * m2) (e1 + e2)) = Finite (Float M' e') \<and> 0 < M')" .
  then show ?thesis
  proof
    assume "round64 (Float (m1 * m2) (e1 + e2)) = PosInf"
    then show ?thesis by (simp del: round64.simps)
  next
    assume "\<exists>M' e'. round64 (Float (m1 * m2) (e1 + e2)) = Finite (Float M' e') \<and> 0 < M'"
    then obtain M' e' where r: "round64 (Float (m1 * m2) (e1 + e2)) = Finite (Float M' e')"
      and M': "0 < M'" by blast
    from np_ceil_pos [OF M', of e'] r show ?thesis
      by (simp only: float_mul.simps) blast
  qed
qed

text \<open>The float product of a positive float and its rounded reciprocal is above 0 and at
  most 1, so its ceiling is 1: \<^verbatim>\<open>np.ceil((1. / x) * x) == 1.0\<close>.\<close>

lemma recip_product_ceil:
  assumes "0 < m"
  shows "np_ceil (float_mul (float_recip (Float m ex)) (Float m ex)) = Finite (Float 1 0)"
proof -
  define n where "n = nat (bitlen m)"
  define P where "P = rne_div (2 ^ (n + 52)) m * m"
  from recip_product_bounds [OF assms]
  have lo': "2 ^ (n + 52) - 2 ^ (n - 1) < P" and hi': "P < 2 ^ (n + 52) + 2 ^ (n - 1)"
    and n1: "1 \<le> n"
    by (simp_all add: n_def P_def)
  from n1 obtain k where n: "n = Suc k" by (cases n) auto
  define p where "p = k + 53"
  define K :: int where "K = 2 ^ k"
  have np: "n + 52 = p" by (simp add: n p_def)
  have K: "0 < K" by (simp add: K_def)
  have pw: "(2::int) ^ p = 2 ^ 53 * K" by (simp add: p_def power_add K_def)
  have lo: "2 ^ p - K < P" and hi: "P < 2 ^ p + K"
    using lo' hi' by (simp_all add: np) (simp_all add: n K_def)
  have "float_recip (Float m ex) = Float (rne_div (2 ^ p) m) (- ex - int p)"
    by (simp add: Let_def n_def [symmetric] np)
  then have mul: "float_mul (float_recip (Float m ex)) (Float m ex) = round64 (Float P (- int p))"
    by (simp add: P_def np del: round64.simps)
  have Plo: "2 ^ 52 * K \<le> P" using lo pw K by simp
  have "0 < 2 ^ 52 * K" using K by simp
  with Plo have Ppos: "0 < P" by linarith
  have "\<exists>M n. round64 (Float P (- int p)) = Finite (Float M (- int n)) \<and> 0 < M \<and> M \<le> 2 ^ n"
  proof (cases "P < 2 ^ p")
    case True
    have "(2::int) ^ (k + 52) = 2 ^ 52 * K" by (simp add: power_add K_def)
    with Plo have "2 ^ (k + 52) \<le> P" by simp
    moreover have "Suc (k + 52) = p" by (simp add: p_def)
    then have "P < 2 ^ Suc (k + 52)" using True by (simp only:)
    ultimately have bl: "bitlen P = int (k + 52) + 1" by (rule bitlen_eqI)
    have d1: "2 ^ 52 \<le> P div K"
      using zdiv_mono1 [OF Plo K] K by simp
    have "P div K < 2 ^ 53"
    proof (rule ccontr)
      assume "\<not> P div K < 2 ^ 53"
      then have "K * 2 ^ 53 \<le> K * (P div K)" using K by (intro mult_left_mono) simp_all
      moreover have "K * (P div K) \<le> P"
        using mult_div_mod_eq [of K P] pos_mod_sign [OF K, of P] by linarith
      moreover have "P < K * 2 ^ 53" using True pw by (simp add: mult.commute)
      ultimately show False by linarith
    qed
    with rne_bounds [of P k] d1 have M: "0 < rne P k" "rne P k \<le> 2 ^ 53"
      by (simp_all add: K_def)
    then have "rne P k < 2 ^ 54" by simp
    from bitlen_le [OF this] have "bitlen (rne P k) \<le> 54" by simp
    then have "round64 (Float P (- int p)) = Finite (Float (rne P k) (- int p + int k))"
    proof (intro round64_pos [OF Ppos])
      show "bitlen P - 53 = int k" using bl by simp
      show "- 1074 - - int p \<le> int k" by (simp add: p_def)
      assume "bitlen (rne P k) \<le> 54"
      moreover have "- int p + int k = - 53" by (simp add: p_def)
      ultimately show "bitlen (rne P k) + (- int p + int k) \<le> 1024" by linarith
    qed
    moreover have "- int p + int k = - int 53" by (simp add: p_def)
    ultimately have "round64 (Float P (- int p)) = Finite (Float (rne P k) (- int 53))"
      by (simp only:)
    with M show ?thesis by blast
  next
    case False
    define d where "d = P - 2 ^ p"
    have d: "0 \<le> d" "d < K" using False hi by (simp_all add: d_def)
    have P: "P = 2 ^ Suc k * 2 ^ 52 + d" by (simp add: d_def pw K_def)
    have dlt: "d < 2 ^ Suc k" using d K by (simp add: K_def)
    have dv: "P div 2 ^ Suc k = 2 ^ 52" using P d(1) dlt by (intro int_div_pos_eq [of _ _ _ d]) simp_all
    have md: "P mod 2 ^ Suc k = d" using P d(1) dlt by (intro int_mod_pos_eq [of _ _ "2 ^ 52"]) simp_all
    have r: "rne P (Suc k) = 2 ^ 52"
      using d(2) by (subst rne_down) (simp_all only: md dv, simp add: K_def)
    have "P < 2 ^ Suc p" using hi pw K by simp
    with False have bl: "bitlen P = int p + 1" by (intro bitlen_eqI) simp_all
    have b52: "bitlen (2 ^ 52) \<le> int 53" by (rule bitlen_le) simp
    have "round64 (Float P (- int p)) = Finite (Float (rne P (Suc k)) (- int p + int (Suc k)))"
    proof (rule round64_pos [OF Ppos])
      show "bitlen P - 53 = int (Suc k)" using bl by (simp add: p_def)
      show "- 1074 - - int p \<le> int (Suc k)" by (simp add: p_def)
      have "- int p + int (Suc k) = - 52" by (simp add: p_def)
      with b52 show "bitlen (rne P (Suc k)) + (- int p + int (Suc k)) \<le> 1024"
        unfolding r by linarith
    qed
    moreover have "- int p + int (Suc k) = - int 52" by (simp add: p_def)
    ultimately have "round64 (Float P (- int p)) = Finite (Float (2 ^ 52) (- int 52))"
      by (simp only: r)
    moreover have "(0::int) < 2 ^ 52" "(2::int) ^ 52 \<le> 2 ^ 52" by simp_all
    ultimately show ?thesis by blast
  qed
  then obtain M j where r: "round64 (Float P (- int p)) = Finite (Float M (- int j))"
    and M: "0 < M" "M \<le> 2 ^ j" by blast
  have "np_ceil (Finite (Float M (- int j))) = Finite (Float 1 0)"
  proof (cases "j = 0")
    case True
    with M have "M = 1" by simp
    with True show ?thesis by simp
  next
    case False
    with ceil_unit [OF M] show ?thesis by simp
  qed
  with mul r show ?thesis by (simp only:)
qed

section \<open>Properties of \<^verbatim>\<open>moving_average\<close>\<close>

lemma transposed_index:
  fixes k n0 n1 :: nat
  assumes "k < n1 * n0"
  shows "(k mod n0) * n1 + k div n0 < n0 * n1"
proof -
  from assms have n0: "0 < n0" by (cases n0) auto
  then have "k mod n0 < n0" by simp
  then have "Suc (k mod n0) * n1 \<le> n0 * n1" by (intro mult_le_mono1) simp
  moreover have "k div n0 < n1" using assms n0 by (simp add: less_mult_imp_div_less)
  ultimately show ?thesis by simp
qed

lemma transpose_102_Inr:
  assumes "wf_array a" "shape a = [n0, n1, n2]"
  obtains t where "transpose_102 a = Inr t" "shape t = [n1, n0, n2]" "wf_array t"
    and "\<And>i j. i < n0 \<Longrightarrow> j < n1 \<Longrightarrow> row t (j * n0 + i) = row a (i * n1 + j)"
proof -
  let ?g = "\<lambda>r. row a ((r mod n0) * n1 + r div n0)"
  let ?t = "\<lparr>shape = [n1, n0, n2], buf = concat (map ?g [0..<n1 * n0])\<rparr>"
  have ne: "shape a \<noteq> []" and nr: "nrows a = n0 * n1" and la: "last (shape a) = n2"
    using assms(2) by (simp_all add: nrows_def)
  have res: "transpose_102 a = Inr ?t" using assms(2) by (simp add: transpose_102_def)
  have len: "length (?g r) = n2" if "r < n1 * n0" for r
    using length_row [OF assms(1) ne, of "(r mod n0) * n1 + r div n0"] transposed_index [OF that]
    by (simp add: nr la)
  have "length (buf ?t) = n1 * n0 * n2" using len by (simp add: length_concat_chunks)
  then have wf: "wf_array ?t" by (simp add: wf_array_def)
  have rows: "row ?t (j * n0 + i) = row a (i * n1 + j)" if "i < n0" "j < n1" for i j
  proof -
    from that have "Suc j * n0 \<le> n1 * n0" by (intro mult_le_mono1) simp
    with that have lt: "j * n0 + i < n1 * n0" by simp
    have "row ?t (j * n0 + i) = ?g (j * n0 + i)"
      using concat_chunk [of "n1 * n0" ?g n2 "j * n0 + i"] len lt by (simp add: row_def)
    also have "\<dots> = row a (i * n1 + j)" using that by simp
    finally show ?thesis .
  qed
  from res wf rows show ?thesis by (intro that [of ?t]) simp_all
qed

lemma array_eqI:
  assumes "wf_array a" "wf_array b" "shape a = shape b" "shape a \<noteq> []"
    and "\<And>i. i < nrows a \<Longrightarrow> row a i = row b i"
  shows "a = b"
proof -
  let ?n = "last (shape a)"
  have "buf a = concat (map (\<lambda>i. take ?n (drop (i * ?n) (buf a))) [0..<nrows a])"
    using length_buf [OF assms(1,4)] by (simp add: concat_chunks_id)
  also have "\<dots> = concat (map (\<lambda>i. take ?n (drop (i * ?n) (buf b))) [0..<nrows a])"
    using assms(3,5) by (intro arg_cong [where f = concat] map_cong refl) (simp add: row_def)
  also have "\<dots> = buf b"
    using length_buf [OF assms(2)] assms(3,4) by (simp add: concat_chunks_id nrows_def)
  finally show ?thesis using assms(3) by simp
qed

lemma index_less:
  fixes i j :: nat
  assumes "i < m" "j < n"
  shows "i * n + j < m * n"
proof -
  from assms(1) have "Suc i * n \<le> m * n" by (intro mult_le_mono1) simp
  with assms(2) show ?thesis by simp
qed

lemma boxcar_filter_pos:
  "1 \<le> n \<Longrightarrow> boxcar_filter n = Inr (replicate (nat n) (1 / real_of_int n))"
  by (simp add: boxcar_filter_def np_ones_def)

lemma boxcar_filter_zero: "boxcar_filter 0 = Inr []"
  by (simp add: boxcar_filter_def np_ones_def)

lemma boxcar_filter_neg: "n < 0 \<Longrightarrow> boxcar_filter n = Inl NumpyError"
  by (simp add: boxcar_filter_def np_ones_def)

lemma np_ceil_cases:
  obtains (fin) n where "np_ceil x = Finite (Float n 0)"
  | (pinf) "np_ceil x = PosInf" | (ninf) "np_ceil x = NegInf"
proof (cases x)
  case (Finite f)
  then show ?thesis by (cases f) (simp add: fin)
qed (simp_all add: pinf ninf)

lemma np_ceil_Inr: "int_of_float64 (np_ceil x) = Inr k \<Longrightarrow> np_ceil x = Finite (Float k 0)"
  by (cases x rule: np_ceil_cases) simp_all

lemma moving_average_unfold:
  assumes "np_ceil (float_mul tw (sfreq e)) = Finite (Float k 0)" "k \<le> int (length (times e))"
  shows "moving_average v e tw =
          (case boxcar_filter k of
             Inl err \<Rightarrow> Inl err
           | Inr filt \<Rightarrow>
               (case transpose_102 (data e) of
                  Inl err \<Rightarrow> Inl err
                | Inr data1 \<Rightarrow>
                    (case convolve v data1 filt of
                       Inl err \<Rightarrow> Inl err
                     | Inr data2 \<Rightarrow>
                         (case transpose_102 data2 of
                            Inl err \<Rightarrow> Inl err
                          | Inr data3 \<Rightarrow> Inr (e\<lparr>data := data3\<rparr>)))))"
  using assms by (simp add: moving_average_def Let_def)

lemma moving_average_Inr:
  assumes wf: "wf_array (data e)" and sh: "shape (data e) = [T, Ch, N]"
    and pos: "0 < T" "0 < Ch" "0 < N"
    and ns: "np_ceil (float_mul tw (sfreq e)) = Finite (Float k 0)"
      "1 \<le> k" "k \<le> int (length (times e))"
  obtains out where "moving_average v e tw = Inr (e\<lparr>data := out\<rparr>)"
    and "shape out = [T, Ch, N]" and "wf_array out"
    and "\<And>t c. t < T \<Longrightarrow> c < Ch \<Longrightarrow>
           slice3 out t c = conv_out (slice3 (data e) t c) (replicate (nat k) (1 / real_of_int k))"
proof -
  let ?filt = "replicate (nat k) (1 / real_of_int k)"
  have filt: "boxcar_filter k = Inr ?filt" using ns(2) by (rule boxcar_filter_pos)
  have fne: "?filt \<noteq> []" using ns(2) by simp
  from transpose_102_Inr [OF wf sh] obtain d1
    where d1: "transpose_102 (data e) = Inr d1" "shape d1 = [Ch, T, N]" "wf_array d1"
      and r1: "\<And>i j. i < T \<Longrightarrow> j < Ch \<Longrightarrow> row d1 (j * T + i) = row (data e) (i * Ch + j)"
    by blast
  have "0 \<notin> set (shape d1)" and "shape d1 \<noteq> []" and "''1.12.0'' \<le> v \<or> ndim d1 \<le> 3"
    using d1(2) pos by (simp_all add: ndim_def)
  from convolve_Inr [OF d1(3) this(2) this(1) fne this(3)] obtain d2
    where d2: "convolve v d1 ?filt = Inr d2" "shape d2 = shape d1" "wf_array d2"
      and r2: "\<And>i. i < nrows d1 \<Longrightarrow> row d2 i = conv_out (row d1 i) ?filt"
    by blast
  have sh2: "shape d2 = [Ch, T, N]" using d2(2) d1(2) by simp
  from transpose_102_Inr [OF d2(3) sh2] obtain d3
    where d3: "transpose_102 d2 = Inr d3" "shape d3 = [T, Ch, N]" "wf_array d3"
      and r3: "\<And>i j. i < Ch \<Longrightarrow> j < T \<Longrightarrow> row d3 (j * Ch + i) = row d2 (i * T + j)"
    by blast
  have res: "moving_average v e tw = Inr (e\<lparr>data := d3\<rparr>)"
    using moving_average_unfold [OF ns(1,3), of v] by (simp add: filt d1(1) d2(1) d3(1))
  have rows: "slice3 d3 t c = conv_out (slice3 (data e) t c) ?filt" if "t < T" "c < Ch" for t c
  proof -
    have "c * T + t < nrows d1" using index_less [OF that(2,1)] d1(2) by (simp add: nrows_def)
    then have "row d2 (c * T + t) = conv_out (row d1 (c * T + t)) ?filt" by (rule r2)
    with r1 [OF that] r3 [OF that(2,1)] show ?thesis by (simp add: slice3_def d3(2) sh)
  qed
  from res d3(2,3) rows show ?thesis by (rule that)
qed

lemma moving_average_window:
  assumes "float64_gt_int (np_ceil (float_mul tw (sfreq e))) (int (length (times e)))"
  shows "moving_average v e tw =
          (if times e = [] then Inl IndexError
           else Inl (ValueError_window tw (last (times e) - hd (times e))))"
  using assms by (simp add: moving_average_def Let_def)

lemma moving_average_NegInf:
  assumes "np_ceil (float_mul tw (sfreq e)) = NegInf"
  shows "moving_average v e tw = Inl OverflowError"
  using assms by (simp add: moving_average_def Let_def)

lemma moving_average_NumpyError:
  assumes wf: "wf_array (data e)" and sh: "shape (data e) = [T, Ch, N]"
    and ns: "np_ceil (float_mul tw (sfreq e)) = Finite (Float k 0)" "k \<le> int (length (times e))"
    and bad: "k \<le> 0 \<or> T = 0 \<or> Ch = 0 \<or> N = 0"
  shows "moving_average v e tw = Inl NumpyError"
proof -
  note unfold = moving_average_unfold [OF ns, of v]
  show ?thesis
  proof (cases "k < 0")
    case True
    from unfold boxcar_filter_neg [OF True] show ?thesis by (simp only: sum.case)
  next
    case False
    obtain filt where filt: "boxcar_filter k = Inr filt"
      and fb: "filt = [] \<or> T = 0 \<or> Ch = 0 \<or> N = 0"
    proof (cases "k = 0")
      case True
      then show ?thesis using that [of "[]"] by (simp add: boxcar_filter_zero)
    next
      case nz: False
      with False have k1: "1 \<le> k" by simp
      with bad have "T = 0 \<or> Ch = 0 \<or> N = 0" by simp
      with boxcar_filter_pos [OF k1] show ?thesis by (intro that) auto
    qed
    from transpose_102_Inr [OF wf sh] obtain d1
      where d1: "transpose_102 (data e) = Inr d1" "shape d1 = [Ch, T, N]" "wf_array d1"
      by blast
    have "convolve v d1 filt = Inl NumpyError"
      using convolve_eq [OF d1(3), of v filt] d1(2) fb by (auto simp: ndim_def)
    with unfold filt d1(1) show ?thesis by (simp only: sum.case)
  qed
qed

lemma sum_list_single:
  fixes f :: "nat \<Rightarrow> real"
  assumes "k < n"
  shows "(\<Sum>j\<leftarrow>[0..<n]. if j = k then f j else 0) = f k"
proof -
  have "(\<Sum>j\<leftarrow>[0..<n]. if j = k then f j else 0) = (\<Sum>j\<in>{0..<n}. if j = k then f j else 0)"
    by (simp add: interv_sum_list_conv_sum_set_nat)
  also have "\<dots> = f k" using assms by (simp add: sum.delta)
  finally show ?thesis .
qed

lemma full_convolution_one: "full_convolution x [1] = x"
proof (rule nth_equalityI)
  show "length (full_convolution x [1]) = length x" by simp
next
  fix k assume "k < length (full_convolution x [1])"
  then have k: "k < length x" by simp
  have "(\<Sum>j\<leftarrow>[0..<length x]. if j \<le> k \<and> k - j < length [1::real] then x ! j * [1] ! (k - j) else 0)
        = (\<Sum>j\<leftarrow>[0..<length x]. if j = k then x ! j else 0)"
    by (intro arg_cong [where f = sum_list] map_cong refl) auto
  also have "\<dots> = x ! k" using k by (rule sum_list_single)
  finally show "full_convolution x [1] ! k = x ! k"
    using k by (simp add: full_convolution_def cong: if_cong)
qed

lemma conv_out_one: "x \<noteq> [] \<Longrightarrow> conv_out x [1] = x"
  by (cases x) (simp_all add: conv_out_def full_convolution_one)

lemma float64_gt_int_Float0 [simp]: "float64_gt_int (Finite (Float k 0)) n \<longleftrightarrow> n < k"
  by simp

lemma moving_average_example:
  "moving_average ''1.26.4'' \<lparr>data = \<lparr>shape = [1, 2, 2], buf = [1, 2, 3, 4]\<rparr>, sfreq = Float 2 0, times = [0, 1 / 2]\<rparr> (Float 1 0)
     = Inr \<lparr>data = \<lparr>shape = [1, 2, 2], buf = [1 / 2, 3 / 2, 3 / 2, 7 / 2]\<rparr>, sfreq = Float 2 0, times = [0, 1 / 2]\<rparr>"
  by code_simp

text \<open>The product is the float product: \<^verbatim>\<open>0.1 * 10.0\<close> is \<^verbatim>\<open>1.0\<close>, one sample, although the
  float \<^verbatim>\<open>0.1\<close> is above one tenth.\<close>

lemma nsamples_example:
  "np_ceil (float_mul (Float 3602879701896397 (- 55)) (Float 10 0)) = Finite (Float 1 0)"
  by code_simp

text \<open>
  C2, for non-empty containers. For every epoch container with at least one epoch and
  one channel, whose data is a well-formed array (epochs, channels, times) with as many
  time points as \<^verbatim>\<open>epoch.times\<close>, and every finite \<open>twindow\<close> for which
  \<open>nsamples = ceil(twindow * sfreq)\<close>, the ceiling of the float product, is at least 1 and
  passes the window check, \<^verbatim>\<open>moving_average\<close> builds the filter of length \<open>nsamples\<close>
  with every weight \<open>1 / nsamples\<close> and returns a container with the same shape of data
  and the same metadata, in which the time series of every epoch and channel is the
  first \<open>N\<close> elements of the full convolution of the input's time series with the filter.
  (The code swaps the epoch and channel axes before and after the convolution; the time
  axis is and stays the last one. A positive \<open>twindow\<close> and a positive sampling frequency
  give \<open>nsamples \<ge> 1\<close> unless their product underflows, lemma \<open>nsamples_pos\<close>.)
\<close>

theorem moving_average_smooths:
  assumes "wf_array (data e)" "shape (data e) = [T, Ch, N]" "0 < T" "0 < Ch"
    and "length (times e) = N"
    and "int_of_float64 (np_ceil (float_mul tw (sfreq e))) = Inr k" "1 \<le> k"
    and "\<not> float64_gt_int (np_ceil (float_mul tw (sfreq e))) (int (length (times e)))"
  shows "\<exists>filt e'. boxcar_filter k = Inr filt
           \<and> filt = replicate (nat k) (1 / real_of_int k)
           \<and> moving_average v e tw = Inr e'
           \<and> shape (data e') = shape (data e) \<and> wf_array (data e')
           \<and> sfreq e' = sfreq e \<and> times e' = times e \<and> epochs.more e' = epochs.more e
           \<and> (\<forall>t<T. \<forall>c<Ch. \<exists>full. np_convolve (slice3 (data e) t c) filt = Inr full
                  \<and> slice3 (data e') t c = take N full)"
proof -
  let ?filt = "replicate (nat k) (1 / real_of_int k)"
  have ns: "np_ceil (float_mul tw (sfreq e)) = Finite (Float k 0)"
    using assms(6) by (rule np_ceil_Inr)
  have ns2: "k \<le> int (length (times e))" using assms(8) unfolding ns by simp
  with assms(5,7) have N: "0 < N" by linarith
  from moving_average_Inr [OF assms(1,2,3,4) N ns assms(7) ns2, of v] obtain out
    where out: "moving_average v e tw = Inr (e\<lparr>data := out\<rparr>)" "shape out = [T, Ch, N]"
      "wf_array out"
      and rows: "\<And>t c. t < T \<Longrightarrow> c < Ch \<Longrightarrow> slice3 out t c = conv_out (slice3 (data e) t c) ?filt"
    by blast
  have fne: "?filt \<noteq> []" using assms(7) by simp
  have sl: "\<exists>full. np_convolve (slice3 (data e) t c) ?filt = Inr full
                  \<and> slice3 out t c = take N full" if "t < T" "c < Ch" for t c
  proof -
    have "t * Ch + c < nrows (data e)" using index_less [OF that] assms(2) by (simp add: nrows_def)
    from length_row [OF assms(1) _ this] have "length (slice3 (data e) t c) = N"
      using assms(2) by (simp add: slice3_def)
    moreover from this N have "slice3 (data e) t c \<noteq> []" by auto
    from conv_out_np_convolve [OF this fne] obtain full
      where "np_convolve (slice3 (data e) t c) ?filt = Inr full"
        and "conv_out (slice3 (data e) t c) ?filt = take (length (slice3 (data e) t c)) full"
      by blast
    ultimately show ?thesis using rows [OF that] by simp
  qed
  show ?thesis
    using boxcar_filter_pos [OF assms(7)] out sl assms(2)
    by (intro exI [of _ ?filt] exI [of _ "e\<lparr>data := out\<rparr>"]) simp
qed

theorem moving_average_smooths_witness:
  "wf_array (data \<lparr>data = \<lparr>shape = [1, 2, 2], buf = [1, 2, 3, 4]\<rparr>, sfreq = Float 2 0, times = [0, 1 / 2]\<rparr>) \<and> shape (data \<lparr>data = \<lparr>shape = [1, 2, 2], buf = [1, 2, 3, 4]\<rparr>, sfreq = Float 2 0, times = [0, 1 / 2]\<rparr>) = [1, 2, 2] \<and> (0::nat) < 1 \<and> (0::nat) < 2
   \<and> length (times \<lparr>data = \<lparr>shape = [1, 2, 2], buf = [1, 2, 3, 4]\<rparr>, sfreq = Float 2 0, times = [0, 1 / 2]\<rparr>) = 2
   \<and> int_of_float64 (np_ceil (float_mul (Float 1 0) (sfreq \<lparr>data = \<lparr>shape = [1, 2, 2], buf = [1, 2, 3, 4]\<rparr>, sfreq = Float 2 0, times = [0, 1 / 2]\<rparr>))) = Inr 2 \<and> (1::int) \<le> 2
   \<and> \<not> float64_gt_int (np_ceil (float_mul (Float 1 0) (sfreq \<lparr>data = \<lparr>shape = [1, 2, 2], buf = [1, 2, 3, 4]\<rparr>, sfreq = Float 2 0, times = [0, 1 / 2]\<rparr>))) (int (length (times \<lparr>data = \<lparr>shape = [1, 2, 2], buf = [1, 2, 3, 4]\<rparr>, sfreq = Float 2 0, times = [0, 1 / 2]\<rparr>)))
   \<and> (\<exists>filt e'. boxcar_filter 2 = Inr filt
          \<and> filt = replicate (nat 2) (1 / real_of_int 2)
          \<and> moving_average ''1.26.4'' \<lparr>data = \<lparr>shape = [1, 2, 2], buf = [1, 2, 3, 4]\<rparr>, sfreq = Float 2 0, times = [0, 1 / 2]\<rparr> (Float 1 0) = Inr e'
          \<and> shape (data e') = shape (data \<lparr>data = \<lparr>shape = [1, 2, 2], buf = [1, 2, 3, 4]\<rparr>, sfreq = Float 2 0, times = [0, 1 / 2]\<rparr>) \<and> wf_array (data e')
          \<and> sfreq e' = sfreq \<lparr>data = \<lparr>shape = [1, 2, 2], buf = [1, 2, 3, 4]\<rparr>, sfreq = Float 2 0, times = [0, 1 / 2]\<rparr> \<and> times e' = times \<lparr>data = \<lparr>shape = [1, 2, 2], buf = [1, 2, 3, 4]\<rparr>, sfreq = Float 2 0, times = [0, 1 / 2]\<rparr> \<and> epochs.more e' = epochs.more \<lparr>data = \<lparr>shape = [1, 2, 2], buf = [1, 2, 3, 4]\<rparr>, sfreq = Float 2 0, times = [0, 1 / 2]\<rparr>
          \<and> (\<forall>t<1. \<forall>c<2. \<exists>full. np_convolve (slice3 (data \<lparr>data = \<lparr>shape = [1, 2, 2], buf = [1, 2, 3, 4]\<rparr>, sfreq = Float 2 0, times = [0, 1 / 2]\<rparr>) t c) filt = Inr full
                 \<and> slice3 (data e') t c = take 2 full))"
proof -
  let ?e = "\<lparr>data = \<lparr>shape = [1, 2, 2], buf = [1, 2, 3, 4]\<rparr>, sfreq = Float 2 0, times = [0, 1 / 2]\<rparr>"
  have h: "wf_array (data ?e)" "shape (data ?e) = [1, 2, 2]" "(0::nat) < 1" "(0::nat) < 2"
    "length (times ?e) = 2"
    "int_of_float64 (np_ceil (float_mul (Float 1 0) (sfreq ?e))) = Inr 2" "(1::int) \<le> 2"
    "\<not> float64_gt_int (np_ceil (float_mul (Float 1 0) (sfreq ?e))) (int (length (times ?e)))"
    by (simp_all add: wf_array_def) code_simp+
  from moving_average_smooths [OF h, where v = "''1.26.4''"] h show ?thesis by blast
qed

text \<open>
  C2 does not hold for every epoch container: on a container without epochs a positive
  window that passes the window check ends in the failure of \<^verbatim>\<open>np.vectorize\<close> on an
  input of size 0, and no container is returned.
\<close>

theorem moving_average_smooths_counterexample:
  "int_of_float64 (np_ceil (float_mul (Float 1 0) (sfreq \<lparr>data = \<lparr>shape = [0, 2, 2], buf = []\<rparr>, sfreq = Float 2 0, times = [0, 1 / 2]\<rparr>))) = Inr 2
   \<and> \<not> float64_gt_int (np_ceil (float_mul (Float 1 0) (sfreq \<lparr>data = \<lparr>shape = [0, 2, 2], buf = []\<rparr>, sfreq = Float 2 0, times = [0, 1 / 2]\<rparr>))) (int (length (times \<lparr>data = \<lparr>shape = [0, 2, 2], buf = []\<rparr>, sfreq = Float 2 0, times = [0, 1 / 2]\<rparr>)))
   \<and> moving_average ''1.26.4'' \<lparr>data = \<lparr>shape = [0, 2, 2], buf = []\<rparr>, sfreq = Float 2 0, times = [0, 1 / 2]\<rparr> (Float 1 0) = Inl NumpyError"
  by code_simp

text \<open>
  C3, with the failures inside NumPy. For an epoch container with at least one epoch,
  one channel and one time point and a finite \<open>twindow\<close>, \<^verbatim>\<open>moving_average\<close> raises its
  window \<^verbatim>\<open>ValueError\<close> if and only if \<open>nsamples = ceil(twindow * sfreq)\<close>, the ceiling of
  the float product, exceeds the number of time points; for \<open>1 \<le> nsamples \<le> N\<close> it
  returns a container (a window of exactly the epoch length succeeds); for a finite
  \<open>nsamples < 1\<close> it fails inside NumPy (an empty filter, or a negative length for
  \<^verbatim>\<open>np.ones\<close>) and for \<open>nsamples = -inf\<close> in \<^verbatim>\<open>int(nsamples)\<close>, not with the window error.
  A failure returns no container.
\<close>

theorem moving_average_errors:
  assumes "wf_array (data e)" "shape (data e) = [T, Ch, N]" "0 < T" "0 < Ch" "0 < N"
    and "length (times e) = N"
  shows "((\<exists>w l. moving_average v e tw = Inl (ValueError_window w l))
            \<longleftrightarrow> float64_gt_int (np_ceil (float_mul tw (sfreq e))) (int N))
       \<and> (int_of_float64 (np_ceil (float_mul tw (sfreq e))) = Inr k \<and> 1 \<le> k \<and> k \<le> int N
            \<longrightarrow> (\<exists>e'. moving_average v e tw = Inr e'))
       \<and> (int_of_float64 (np_ceil (float_mul tw (sfreq e))) = Inr k \<and> k < 1
            \<longrightarrow> moving_average v e tw = Inl NumpyError)
       \<and> (np_ceil (float_mul tw (sfreq e)) = NegInf
            \<longrightarrow> moving_average v e tw = Inl OverflowError)"
proof -
  let ?ns = "np_ceil (float_mul tw (sfreq e))"
  have ne: "times e \<noteq> []" using assms(5,6) by auto
  have big: "\<exists>w l. moving_average v e tw = Inl (ValueError_window w l)"
    if "float64_gt_int ?ns (int N)"
    using moving_average_window [of tw e v] that ne assms(6) by simp
  have ok: "\<exists>e'. moving_average v e tw = Inr e'" if "?ns = Finite (Float j 0)" "1 \<le> j" "j \<le> int N" for j
  proof -
    from that(3) have "j \<le> int (length (times e))" by (simp add: assms(6))
    from moving_average_Inr [OF assms(1-5) that(1,2) this, of v] show ?thesis by blast
  qed
  have small: "moving_average v e tw = Inl NumpyError" if "?ns = Finite (Float j 0)" "j < 1" for j
  proof -
    from that(2) have "j \<le> int (length (times e))" "j \<le> 0 \<or> T = 0 \<or> Ch = 0 \<or> N = 0" by simp_all
    from moving_average_NumpyError [OF assms(1,2) that(1) this] show ?thesis .
  qed
  have neg: "moving_average v e tw = Inl OverflowError" if "?ns = NegInf"
    using that by (rule moving_average_NegInf)
  have iff: "(\<exists>w l. moving_average v e tw = Inl (ValueError_window w l)) \<longleftrightarrow> float64_gt_int ?ns (int N)"
  proof
    assume w: "\<exists>w l. moving_average v e tw = Inl (ValueError_window w l)"
    show "float64_gt_int ?ns (int N)"
    proof (cases rule: np_ceil_cases [of "float_mul tw (sfreq e)"])
      case (fin j)
      show ?thesis
      proof (rule ccontr)
        assume "\<not> float64_gt_int ?ns (int N)"
        with fin have "j < 1 \<or> (1 \<le> j \<and> j \<le> int N)" by auto
        with small [OF fin] ok [OF fin] w show False by auto
      qed
    next
      case pinf
      then show ?thesis by simp
    next
      case ninf
      with neg w show ?thesis by auto
    qed
  qed (rule big)
  have "\<exists>e'. moving_average v e tw = Inr e'"
    if "int_of_float64 ?ns = Inr k" "1 \<le> k" "k \<le> int N"
    using ok [OF np_ceil_Inr [OF that(1)] that(2,3)] .
  moreover have "moving_average v e tw = Inl NumpyError" if "int_of_float64 ?ns = Inr k" "k < 1"
    using small [OF np_ceil_Inr [OF that(1)] that(2)] .
  ultimately show ?thesis using iff neg by blast
qed

theorem moving_average_errors_witness:
  "wf_array (data \<lparr>data = \<lparr>shape = [1, 2, 2], buf = [1, 2, 3, 4]\<rparr>, sfreq = Float 2 0, times = [0, 1 / 2]\<rparr>) \<and> shape (data \<lparr>data = \<lparr>shape = [1, 2, 2], buf = [1, 2, 3, 4]\<rparr>, sfreq = Float 2 0, times = [0, 1 / 2]\<rparr>) = [1, 2, 2] \<and> (0::nat) < 1 \<and> (0::nat) < 2
   \<and> length (times \<lparr>data = \<lparr>shape = [1, 2, 2], buf = [1, 2, 3, 4]\<rparr>, sfreq = Float 2 0, times = [0, 1 / 2]\<rparr>) = 2
   \<and> float64_gt_int (np_ceil (float_mul (Float 2 0) (sfreq \<lparr>data = \<lparr>shape = [1, 2, 2], buf = [1, 2, 3, 4]\<rparr>, sfreq = Float 2 0, times = [0, 1 / 2]\<rparr>))) (int 2)
   \<and> (\<exists>w l. moving_average ''1.26.4'' \<lparr>data = \<lparr>shape = [1, 2, 2], buf = [1, 2, 3, 4]\<rparr>, sfreq = Float 2 0, times = [0, 1 / 2]\<rparr> (Float 2 0) = Inl (ValueError_window w l))
   \<and> int_of_float64 (np_ceil (float_mul (Float 1 0) (sfreq \<lparr>data = \<lparr>shape = [1, 2, 2], buf = [1, 2, 3, 4]\<rparr>, sfreq = Float 2 0, times = [0, 1 / 2]\<rparr>))) = Inr 2 \<and> (1::int) \<le> 2 \<and> 2 \<le> int 2
   \<and> (\<exists>e'. moving_average ''1.26.4'' \<lparr>data = \<lparr>shape = [1, 2, 2], buf = [1, 2, 3, 4]\<rparr>, sfreq = Float 2 0, times = [0, 1 / 2]\<rparr> (Float 1 0) = Inr e')
   \<and> int_of_float64 (np_ceil (float_mul (Float 0 0) (sfreq \<lparr>data = \<lparr>shape = [1, 2, 2], buf = [1, 2, 3, 4]\<rparr>, sfreq = Float 2 0, times = [0, 1 / 2]\<rparr>))) = Inr 0 \<and> (0::int) < 1
   \<and> moving_average ''1.26.4'' \<lparr>data = \<lparr>shape = [1, 2, 2], buf = [1, 2, 3, 4]\<rparr>, sfreq = Float 2 0, times = [0, 1 / 2]\<rparr> (Float 0 0) = Inl NumpyError
   \<and> np_ceil (float_mul (Float (- 1) 1023) (sfreq \<lparr>data = \<lparr>shape = [1, 2, 2], buf = [1, 2, 3, 4]\<rparr>, sfreq = Float 2 0, times = [0, 1 / 2]\<rparr>)) = NegInf
   \<and> moving_average ''1.26.4'' \<lparr>data = \<lparr>shape = [1, 2, 2], buf = [1, 2, 3, 4]\<rparr>, sfreq = Float 2 0, times = [0, 1 / 2]\<rparr> (Float (- 1) 1023) = Inl OverflowError"
proof -
  let ?e = "\<lparr>data = \<lparr>shape = [1, 2, 2], buf = [1, 2, 3, 4]\<rparr>, sfreq = Float 2 0, times = [0, 1 / 2]\<rparr>"
  have h: "wf_array (data ?e)" "shape (data ?e) = [1, 2, 2]" "(0::nat) < 1" "(0::nat) < 2"
    "(0::nat) < 2" "length (times ?e) = 2"
    by (simp_all add: wf_array_def)
  have k: "float64_gt_int (np_ceil (float_mul (Float 2 0) (sfreq ?e))) (int 2)"
    "int_of_float64 (np_ceil (float_mul (Float 1 0) (sfreq ?e))) = Inr 2" "(1::int) \<le> 2" "2 \<le> int 2"
    "int_of_float64 (np_ceil (float_mul (Float 0 0) (sfreq ?e))) = Inr 0" "(0::int) < 1"
    "np_ceil (float_mul (Float (- 1) 1023) (sfreq ?e)) = NegInf"
    by code_simp+
  have a: "\<exists>w l. moving_average ''1.26.4'' ?e (Float 2 0) = Inl (ValueError_window w l)"
    using moving_average_errors [OF h, where v = "''1.26.4''" and tw = "Float 2 0" and k = 0] k(1)
    by simp
  have b: "\<exists>e'. moving_average ''1.26.4'' ?e (Float 1 0) = Inr e'"
    using moving_average_errors [OF h, where v = "''1.26.4''" and tw = "Float 1 0" and k = 2] k(2,3,4)
    by blast
  have c: "moving_average ''1.26.4'' ?e (Float 0 0) = Inl NumpyError"
    using moving_average_errors [OF h, where v = "''1.26.4''" and tw = "Float 0 0" and k = 0] k(5,6)
    by blast
  have d: "moving_average ''1.26.4'' ?e (Float (- 1) 1023) = Inl OverflowError"
    using moving_average_errors [OF h, where v = "''1.26.4''" and tw = "Float (- 1) 1023" and k = 0] k(7)
    by blast
  from h k a b c d show ?thesis by (intro conjI)
qed

text \<open>
  C3 does not hold where it says that the window error is the only failure: with
  \<open>twindow = 0\<close> the window check passes and \<^verbatim>\<open>np.convolve\<close> raises on the empty filter;
  on a container without epochs a positive window that passes the check fails in
  \<^verbatim>\<open>np.vectorize\<close>.
\<close>

theorem moving_average_errors_counterexample:
  "\<not> float64_gt_int (np_ceil (float_mul (Float 0 0) (sfreq \<lparr>data = \<lparr>shape = [1, 2, 2], buf = [1, 2, 3, 4]\<rparr>, sfreq = Float 2 0, times = [0, 1 / 2]\<rparr>))) (int (length (times \<lparr>data = \<lparr>shape = [1, 2, 2], buf = [1, 2, 3, 4]\<rparr>, sfreq = Float 2 0, times = [0, 1 / 2]\<rparr>)))
   \<and> moving_average ''1.26.4'' \<lparr>data = \<lparr>shape = [1, 2, 2], buf = [1, 2, 3, 4]\<rparr>, sfreq = Float 2 0, times = [0, 1 / 2]\<rparr> (Float 0 0) = Inl NumpyError
   \<and> \<not> float64_gt_int (np_ceil (float_mul (Float 1 0) (sfreq \<lparr>data = \<lparr>shape = [0, 2, 2], buf = []\<rparr>, sfreq = Float 2 0, times = [0, 1 / 2]\<rparr>))) (int (length (times \<lparr>data = \<lparr>shape = [0, 2, 2], buf = []\<rparr>, sfreq = Float 2 0, times = [0, 1 / 2]\<rparr>)))
   \<and> moving_average ''1.26.4'' \<lparr>data = \<lparr>shape = [0, 2, 2], buf = []\<rparr>, sfreq = Float 2 0, times = [0, 1 / 2]\<rparr> (Float 1 0) = Inl NumpyError"
  by code_simp

text \<open>
  C10. When \<open>nsamples = ceil(twindow * sfreq)\<close> is 0 (for example \<open>twindow = 0\<close>), the
  window check passes, the filter \<^verbatim>\<open>np.ones(0) / nsamples\<close> is empty, \<^verbatim>\<open>convolve\<close> is called
  with it on the transposed data and fails inside NumPy, and that failure, not the
  window error, is what \<^verbatim>\<open>moving_average\<close> raises.
\<close>

theorem moving_average_zero_samples:
  assumes "int_of_float64 (np_ceil (float_mul tw (sfreq e))) = Inr 0"
    and "wf_array (data e)" "shape (data e) = [T, Ch, N]"
  shows "\<not> float64_gt_int (np_ceil (float_mul tw (sfreq e))) (int (length (times e)))
       \<and> (\<exists>n. int_of_float64 (np_ceil (float_mul tw (sfreq e))) = Inr n \<and> boxcar_filter n = Inr [])
       \<and> (\<exists>data1. transpose_102 (data e) = Inr data1 \<and> convolve v data1 [] = Inl NumpyError)
       \<and> moving_average v e tw = Inl NumpyError"
proof -
  have ns: "np_ceil (float_mul tw (sfreq e)) = Finite (Float 0 0)"
    using assms(1) by (rule np_ceil_Inr)
  from transpose_102_Inr [OF assms(2,3)] obtain d1
    where d1: "transpose_102 (data e) = Inr d1" "shape d1 = [Ch, T, N]" "wf_array d1"
    by blast
  have "convolve v d1 [] = Inl NumpyError"
    using convolve_eq [OF d1(3), of v "[]"] d1(2) by (simp add: ndim_def)
  moreover have "moving_average v e tw = Inl NumpyError"
    by (rule moving_average_NumpyError [OF assms(2,3) ns]) simp_all
  ultimately show ?thesis using assms(1) d1(1) by (simp add: ns boxcar_filter_zero)
qed

theorem moving_average_zero_samples_witness:
  "int_of_float64 (np_ceil (float_mul (Float 0 0) (sfreq \<lparr>data = \<lparr>shape = [1, 2, 2], buf = [1, 2, 3, 4]\<rparr>, sfreq = Float 2 0, times = [0, 1 / 2]\<rparr>))) = Inr 0
   \<and> wf_array (data \<lparr>data = \<lparr>shape = [1, 2, 2], buf = [1, 2, 3, 4]\<rparr>, sfreq = Float 2 0, times = [0, 1 / 2]\<rparr>) \<and> shape (data \<lparr>data = \<lparr>shape = [1, 2, 2], buf = [1, 2, 3, 4]\<rparr>, sfreq = Float 2 0, times = [0, 1 / 2]\<rparr>) = [1, 2, 2]
   \<and> \<not> float64_gt_int (np_ceil (float_mul (Float 0 0) (sfreq \<lparr>data = \<lparr>shape = [1, 2, 2], buf = [1, 2, 3, 4]\<rparr>, sfreq = Float 2 0, times = [0, 1 / 2]\<rparr>))) (int (length (times \<lparr>data = \<lparr>shape = [1, 2, 2], buf = [1, 2, 3, 4]\<rparr>, sfreq = Float 2 0, times = [0, 1 / 2]\<rparr>)))
   \<and> (\<exists>n. int_of_float64 (np_ceil (float_mul (Float 0 0) (sfreq \<lparr>data = \<lparr>shape = [1, 2, 2], buf = [1, 2, 3, 4]\<rparr>, sfreq = Float 2 0, times = [0, 1 / 2]\<rparr>))) = Inr n \<and> boxcar_filter n = Inr [])
   \<and> (\<exists>data1. transpose_102 (data \<lparr>data = \<lparr>shape = [1, 2, 2], buf = [1, 2, 3, 4]\<rparr>, sfreq = Float 2 0, times = [0, 1 / 2]\<rparr>) = Inr data1 \<and> convolve ''1.26.4'' data1 [] = Inl NumpyError)
   \<and> moving_average ''1.26.4'' \<lparr>data = \<lparr>shape = [1, 2, 2], buf = [1, 2, 3, 4]\<rparr>, sfreq = Float 2 0, times = [0, 1 / 2]\<rparr> (Float 0 0) = Inl NumpyError"
proof -
  let ?e = "\<lparr>data = \<lparr>shape = [1, 2, 2], buf = [1, 2, 3, 4]\<rparr>, sfreq = Float 2 0, times = [0, 1 / 2]\<rparr>"
  have h: "int_of_float64 (np_ceil (float_mul (Float 0 0) (sfreq ?e))) = Inr 0"
    "wf_array (data ?e)" "shape (data ?e) = [1, 2, 2]"
    by (simp_all add: wf_array_def)
  from moving_average_zero_samples [OF h, where v = "''1.26.4''"] h show ?thesis by blast
qed

text \<open>
  C9, for non-empty containers. For every epoch container with at least one epoch, one
  channel and one time point and a positive sampling frequency whose reciprocal is a
  normal binary64 number, \<^verbatim>\<open>moving_average\<close> with \<open>twindow\<close> equal to the duration of one
  sample, the float \<^verbatim>\<open>1. / sfreq\<close>, gets \<open>nsamples = 1\<close> (the float product of the rounded
  reciprocal and the frequency is above 0 and at most 1, lemma \<open>recip_product_ceil\<close>),
  builds the filter \<open>[1]\<close> and returns a container equal to its input.
\<close>

theorem moving_average_one_sample:
  assumes "wf_array (data e)" "shape (data e) = [T, Ch, N]" "0 < T" "0 < Ch" "0 < N"
    and "length (times e) = N" "recip_normal (sfreq e)"
  shows "int_of_float64 (np_ceil (float_mul (float_recip (sfreq e)) (sfreq e))) = Inr 1
       \<and> boxcar_filter 1 = Inr [1]
       \<and> moving_average v e (float_recip (sfreq e)) = Inr e"
proof -
  obtain m ex where sf: "sfreq e = Float m ex" by (cases "sfreq e")
  with assms(7) have m: "0 < m" by simp
  have ns: "np_ceil (float_mul (float_recip (sfreq e)) (sfreq e)) = Finite (Float 1 0)"
    unfolding sf using m by (rule recip_product_ceil)
  have filt: "boxcar_filter 1 = Inr [1]" by (simp add: boxcar_filter_def np_ones_def)
  have "(1::int) \<le> 1" "1 \<le> int (length (times e))" using assms(5,6) by simp_all
  from moving_average_Inr [OF assms(1-5) ns this, of v] obtain out
    where out: "moving_average v e (float_recip (sfreq e)) = Inr (e\<lparr>data := out\<rparr>)"
      "shape out = [T, Ch, N]" "wf_array out"
      and rows: "\<And>t c. t < T \<Longrightarrow> c < Ch \<Longrightarrow> slice3 out t c = conv_out (slice3 (data e) t c) [1]"
    by auto
  have "out = data e"
  proof (rule array_eqI)
    show "wf_array out" "wf_array (data e)" "shape out = shape (data e)" "shape out \<noteq> []"
      using out assms by simp_all
  next
    fix i assume "i < nrows out"
    then have i: "i < T * Ch" using out(2) by (simp add: nrows_def)
    then have t: "i div Ch < T" using assms(4) by (simp add: less_mult_imp_div_less)
    have c: "i mod Ch < Ch" using assms(4) by simp
    have "i < nrows (data e)" using i assms(2) by (simp add: nrows_def)
    from length_row [OF assms(1) _ this] assms(2,5) have "row (data e) i \<noteq> []" by auto
    with rows [OF t c] show "row out i = row (data e) i"
      by (simp add: slice3_def out(2) assms(2) conv_out_one)
  qed
  with out(1) filt ns show ?thesis by simp
qed

theorem moving_average_one_sample_witness:
  "wf_array (data \<lparr>data = \<lparr>shape = [1, 2, 2], buf = [1, 2, 3, 4]\<rparr>, sfreq = Float 10 0, times = [0, 1 / 10]\<rparr>) \<and> shape (data \<lparr>data = \<lparr>shape = [1, 2, 2], buf = [1, 2, 3, 4]\<rparr>, sfreq = Float 10 0, times = [0, 1 / 10]\<rparr>) = [1, 2, 2] \<and> (0::nat) < 1 \<and> (0::nat) < 2
   \<and> length (times \<lparr>data = \<lparr>shape = [1, 2, 2], buf = [1, 2, 3, 4]\<rparr>, sfreq = Float 10 0, times = [0, 1 / 10]\<rparr>) = 2 \<and> recip_normal (sfreq \<lparr>data = \<lparr>shape = [1, 2, 2], buf = [1, 2, 3, 4]\<rparr>, sfreq = Float 10 0, times = [0, 1 / 10]\<rparr>)
   \<and> float_recip (sfreq \<lparr>data = \<lparr>shape = [1, 2, 2], buf = [1, 2, 3, 4]\<rparr>, sfreq = Float 10 0, times = [0, 1 / 10]\<rparr>) = Float 7205759403792794 (- 56)
   \<and> int_of_float64 (np_ceil (float_mul (float_recip (sfreq \<lparr>data = \<lparr>shape = [1, 2, 2], buf = [1, 2, 3, 4]\<rparr>, sfreq = Float 10 0, times = [0, 1 / 10]\<rparr>)) (sfreq \<lparr>data = \<lparr>shape = [1, 2, 2], buf = [1, 2, 3, 4]\<rparr>, sfreq = Float 10 0, times = [0, 1 / 10]\<rparr>))) = Inr 1
   \<and> boxcar_filter 1 = Inr [1]
   \<and> moving_average ''1.26.4'' \<lparr>data = \<lparr>shape = [1, 2, 2], buf = [1, 2, 3, 4]\<rparr>, sfreq = Float 10 0, times = [0, 1 / 10]\<rparr> (float_recip (sfreq \<lparr>data = \<lparr>shape = [1, 2, 2], buf = [1, 2, 3, 4]\<rparr>, sfreq = Float 10 0, times = [0, 1 / 10]\<rparr>)) = Inr \<lparr>data = \<lparr>shape = [1, 2, 2], buf = [1, 2, 3, 4]\<rparr>, sfreq = Float 10 0, times = [0, 1 / 10]\<rparr>"
proof -
  let ?e = "\<lparr>data = \<lparr>shape = [1, 2, 2], buf = [1, 2, 3, 4]\<rparr>, sfreq = Float 10 0, times = [0, 1 / 10]\<rparr>"
  have h: "wf_array (data ?e)" "shape (data ?e) = [1, 2, 2]" "(0::nat) < 1" "(0::nat) < 2"
    "(0::nat) < 2" "length (times ?e) = 2" "recip_normal (sfreq ?e)"
    by (simp_all add: wf_array_def) code_simp
  have r: "float_recip (sfreq ?e) = Float 7205759403792794 (- 56)" by code_simp
  from moving_average_one_sample [OF h, where v = "''1.26.4''"] h r show ?thesis by blast
qed

text \<open>
  C9 does not hold for every epoch container: on a container without epochs the call
  fails in \<^verbatim>\<open>np.vectorize\<close> instead of returning the input's data.
\<close>

theorem moving_average_one_sample_counterexample:
  "recip_normal (sfreq \<lparr>data = \<lparr>shape = [0, 2, 2], buf = []\<rparr>, sfreq = Float 10 0, times = [0, 1 / 10]\<rparr>)
   \<and> moving_average ''1.26.4'' \<lparr>data = \<lparr>shape = [0, 2, 2], buf = []\<rparr>, sfreq = Float 10 0, times = [0, 1 / 10]\<rparr> (float_recip (sfreq \<lparr>data = \<lparr>shape = [0, 2, 2], buf = []\<rparr>, sfreq = Float 10 0, times = [0, 1 / 10]\<rparr>)) = Inl NumpyError"
  by code_simp

section \<open>\<^verbatim>\<open>moving_average\<close> and its input\<close>

lemma lookup_prefix:
  assumes "take (length h) h' = h" "a < length h"
  shows "lookup h' a = lookup h a"
proof -
  from assms(1) have "length (take (length h) h') = length h" by simp
  then have "length h \<le> length h'" by simp
  moreover from assms have "h' ! a = h ! a" by (metis nth_take)
  ultimately show ?thesis using assms(2) by (simp add: lookup_def)
qed

lemma lookup_Some_less: "lookup h a = Some ob \<Longrightarrow> a < length h"
  by (simp add: lookup_def split: if_splits)

text \<open>
  C4. \<^verbatim>\<open>moving_average\<close> does not mutate its input: after the call, whether it returns or
  raises, every object of the store it was called in is unchanged (the store before is a
  prefix of the store after), so the input container, its data array and its metadata are
  what they were.
\<close>

theorem moving_average_st_frame:
  "take (length h) (snd (moving_average_st v h epoch tw)) = h
   \<and> deref (snd (moving_average_st v h epoch tw)) epoch = deref h epoch"
proof -
  let ?h' = "snd (moving_average_st v h epoch tw)"
  have pre: "take (length h) ?h' = h"
    by (simp add: moving_average_st_def alloc_def Let_def
        split: option.splits obj.splits sum.splits)
  have "deref ?h' epoch = deref h epoch"
  proof (cases "\<exists>d sf ts arr. lookup h epoch = Some (Epochs d sf ts) \<and> lookup h d = Some (Array arr)")
    case True
    then obtain d sf ts arr
      where e: "lookup h epoch = Some (Epochs d sf ts)" and d: "lookup h d = Some (Array arr)"
      by blast
    have "lookup ?h' epoch = lookup h epoch"
      using pre lookup_Some_less [OF e] by (rule lookup_prefix)
    moreover have "lookup ?h' d = lookup h d"
      using pre lookup_Some_less [OF d] by (rule lookup_prefix)
    ultimately show ?thesis using e d by (simp add: deref_def)
  next
    case False
    then have "?h' = h"
      by (auto simp: moving_average_st_def split: option.splits obj.splits)
    then show ?thesis by simp
  qed
  with pre show ?thesis ..
qed

text \<open>The store version returns what the value version returns.\<close>

lemma moving_average_st_value:
  assumes "deref h epoch = Some e"
  shows "case moving_average v e tw of
           Inl err \<Rightarrow> fst (moving_average_st v h epoch tw) = Inl err
         | Inr e' \<Rightarrow> fst (moving_average_st v h epoch tw) = Inr (Suc (length h))
                     \<and> deref (snd (moving_average_st v h epoch tw)) (Suc (length h)) = Some e'"
proof -
  from assms obtain d sf ts arr
    where l: "lookup h epoch = Some (Epochs d sf ts)" "lookup h d = Some (Array arr)"
      and e: "e = \<lparr>data = arr, sfreq = sf, times = ts\<rparr>"
    by (auto simp: deref_def split: option.splits obj.splits)
  show ?thesis
    unfolding e moving_average_def moving_average_st_def
    using l by (simp add: Let_def alloc_def deref_def lookup_def nth_append
        split: sum.splits)
qed

lemma moving_average_st_example:
  "moving_average_st ''1.26.4''
     [Array \<lparr>shape = [1, 2, 2], buf = [1, 2, 3, 4]\<rparr>, Epochs 0 (Float 2 0) [0, 1 / 2]] 1 (Float 1 0)
   = (Inr 3,
      [Array \<lparr>shape = [1, 2, 2], buf = [1, 2, 3, 4]\<rparr>, Epochs 0 (Float 2 0) [0, 1 / 2],
       Array \<lparr>shape = [1, 2, 2], buf = [1, 2, 3, 4]\<rparr>, Epochs 4 (Float 2 0) [0, 1 / 2],
       Array \<lparr>shape = [1, 2, 2], buf = [1 / 2, 3 / 2, 3 / 2, 7 / 2]\<rparr>])"
  by code_simp

end
